theory Spec2Isabelle
  imports Main
begin

section \<open>Dates, times and durations of the standard library\<close>

text \<open>
  \<^verbatim>\<open>log_process.py\<close> computes with the naive \<^verbatim>\<open>datetime\<close> and \<^verbatim>\<open>timedelta\<close> values of
  Python's standard library. A \<^verbatim>\<open>timedelta\<close> is its total number of microseconds (what
  the library's \<^verbatim>\<open>_to_microseconds\<close> returns, and what \<^verbatim>\<open>//\<close> and \<^verbatim>\<open>%\<close> on durations
  work on). A \<^verbatim>\<open>datetime\<close> is the number of microseconds between \<^verbatim>\<open>datetime.min\<close>
  (0001-01-01 00:00:00) and it; the library's values range from \<^verbatim>\<open>datetime.min\<close> to
  \<^verbatim>\<open>datetime.max\<close> (9999-12-31 23:59:59.999999). Python's integers are unbounded, and
  its \<^verbatim>\<open>//\<close> and \<^verbatim>\<open>%\<close> round to minus infinity, as \<open>div\<close> and \<open>mod\<close> on \<open>int\<close> do.
\<close>

datatype error = ValueError | ZeroDivisionError | OverflowError

type_synonym timedelta = int
type_synonym datetime = int

definition us_per_second :: int where
  "us_per_second = 1000000"

definition us_per_day :: int where
  "us_per_day = 86400000000"

definition td_minutes :: "int \<Rightarrow> timedelta" where
  "td_minutes n = n * 60 * us_per_second"

definition td_days :: "int \<Rightarrow> timedelta" where
  "td_days n = n * us_per_day"

definition datetime_min :: datetime where
  "datetime_min = 0"

definition datetime_max :: datetime where
  "datetime_max = 315537897599999999"

definition valid_datetime :: "datetime \<Rightarrow> bool" where
  "valid_datetime t = (datetime_min \<le> t \<and> t \<le> datetime_max)"

subsection \<open>The proleptic Gregorian calendar\<close>

definition is_leap :: "int \<Rightarrow> bool" where
  "is_leap year = (year mod 4 = 0 \<and> (year mod 100 \<noteq> 0 \<or> year mod 400 = 0))"

definition days_before_year :: "int \<Rightarrow> int" where
  "days_before_year year = (let y = year - 1 in y * 365 + y div 4 - y div 100 + y div 400)"

definition days_in_month_tab :: "int \<Rightarrow> int" where
  "days_in_month_tab month =
     (if month = 2 then 28
      else if month = 4 \<or> month = 6 \<or> month = 9 \<or> month = 11 then 30 else 31)"

definition days_in_month :: "int \<Rightarrow> int \<Rightarrow> int" where
  "days_in_month year month =
     (if month = 2 \<and> is_leap year then 29 else days_in_month_tab month)"

definition days_before_month_tab :: "int \<Rightarrow> int" where
  "days_before_month_tab month =
     (if month = 1 then 0 else if month = 2 then 31 else if month = 3 then 59
      else if month = 4 then 90 else if month = 5 then 120 else if month = 6 then 151
      else if month = 7 then 181 else if month = 8 then 212 else if month = 9 then 243
      else if month = 10 then 273 else if month = 11 then 304 else 334)"

definition days_before_month :: "int \<Rightarrow> int \<Rightarrow> int" where
  "days_before_month year month =
     days_before_month_tab month + (if month > 2 \<and> is_leap year then 1 else 0)"

definition ymd2ord :: "int \<Rightarrow> int \<Rightarrow> int \<Rightarrow> int" where
  "ymd2ord year month day = days_before_year year + days_before_month year month + day"

text \<open>
  The constructor \<^verbatim>\<open>datetime(year, month, day, hour, minute, second, microsecond)\<close>
  raises \<^verbatim>\<open>ValueError\<close> for a field out of range.
\<close>

definition check_date_fields :: "int \<Rightarrow> int \<Rightarrow> int \<Rightarrow> bool" where
  "check_date_fields year month day =
     (1 \<le> year \<and> year \<le> 9999 \<and> 1 \<le> month \<and> month \<le> 12 \<and>
      1 \<le> day \<and> day \<le> days_in_month year month)"

definition check_time_fields :: "int \<Rightarrow> int \<Rightarrow> int \<Rightarrow> int \<Rightarrow> bool" where
  "check_time_fields hour minute second microsecond =
     (0 \<le> hour \<and> hour \<le> 23 \<and> 0 \<le> minute \<and> minute \<le> 59 \<and>
      0 \<le> second \<and> second \<le> 59 \<and> 0 \<le> microsecond \<and> microsecond \<le> 999999)"

definition datetime_us :: "int \<Rightarrow> int \<Rightarrow> int \<Rightarrow> int \<Rightarrow> int \<Rightarrow> int \<Rightarrow> int \<Rightarrow> datetime" where
  "datetime_us year month day hour minute second microsecond =
     (ymd2ord year month day - 1) * us_per_day
       + ((hour * 60 + minute) * 60 + second) * us_per_second + microsecond"

definition datetime_new ::
  "int \<Rightarrow> int \<Rightarrow> int \<Rightarrow> int \<Rightarrow> int \<Rightarrow> int \<Rightarrow> int \<Rightarrow> error + datetime" where
  "datetime_new year month day hour minute second microsecond =
     (if check_date_fields year month day \<and> check_time_fields hour minute second microsecond
      then Inr (datetime_us year month day hour minute second microsecond)
      else Inl ValueError)"

text \<open>
  The fields of a \<^verbatim>\<open>datetime\<close>: the library's \<^verbatim>\<open>_ord2ymd\<close> turns the day number
  (1 for 0001-01-01) back into year, month and day, by the cycles of 400, 100, 4 and 1
  years; the time of day is the rest.
\<close>

definition ord2ymd :: "int \<Rightarrow> int \<times> int \<times> int" where
  "ord2ymd ordinal =
     (let n = ordinal - 1;
          n400 = n div 146097; n = n mod 146097;
          n100 = n div 36524; n = n mod 36524;
          n4 = n div 1461; n = n mod 1461;
          n1 = n div 365; n = n mod 365;
          year = n400 * 400 + 1 + n100 * 100 + n4 * 4 + n1
      in if n1 = 4 \<or> n100 = 4 then (year - 1, 12, 31)
         else
           (let leapyear = (n1 = 3 \<and> (n4 \<noteq> 24 \<or> n100 = 3));
                month = (n + 50) div 32;
                preceding = days_before_month_tab month + (if month > 2 \<and> leapyear then 1 else 0)
            in if preceding > n
               then (year, month - 1,
                     n - (preceding - (days_in_month_tab (month - 1)
                                        + (if month - 1 = 2 \<and> leapyear then 1 else 0))) + 1)
               else (year, month, n - preceding + 1)))"

type_synonym fields = "int \<times> int \<times> int \<times> int \<times> int \<times> int \<times> int"

definition datetime_fields :: "datetime \<Rightarrow> fields" where
  "datetime_fields t =
     (let (year, month, day) = ord2ymd (t div us_per_day + 1);
          seconds = (t mod us_per_day) div us_per_second
      in (year, month, day, seconds div 3600, (seconds div 60) mod 60, seconds mod 60,
          t mod us_per_second))"

subsection \<open>Arithmetic on dates and durations\<close>

text \<open>\<^verbatim>\<open>datetime - datetime\<close> is a duration.\<close>

definition dt_sub :: "datetime \<Rightarrow> datetime \<Rightarrow> timedelta" where
  "dt_sub a b = a - b"

text \<open>\<^verbatim>\<open>datetime + timedelta\<close> raises \<^verbatim>\<open>OverflowError\<close> outside the library's range.\<close>

definition dt_add :: "datetime \<Rightarrow> timedelta \<Rightarrow> error + datetime" where
  "dt_add t d = (if valid_datetime (t + d) then Inr (t + d) else Inl OverflowError)"

text \<open>\<^verbatim>\<open>timedelta % timedelta\<close> and \<^verbatim>\<open>timedelta // timedelta\<close> raise on a zero divisor.\<close>

definition td_mod :: "timedelta \<Rightarrow> timedelta \<Rightarrow> error + timedelta" where
  "td_mod a b = (if b = 0 then Inl ZeroDivisionError else Inr (a mod b))"

definition td_floordiv :: "timedelta \<Rightarrow> timedelta \<Rightarrow> error + int" where
  "td_floordiv a b = (if b = 0 then Inl ZeroDivisionError else Inr (a div b))"

text \<open>\<^verbatim>\<open>datetime.combine(d, time())\<close>: the date of \<open>d\<close> at midnight.\<close>

definition combine_midnight :: "datetime \<Rightarrow> datetime" where
  "combine_midnight t = t - t mod us_per_day"

section \<open>Parsing a timestamp: \<^verbatim>\<open>datetime.strptime\<close> with \<^verbatim>\<open>LOG_TIME_FORMAT\<close>\<close>

text \<open>
  \<^verbatim>\<open>LOG_TIME_FORMAT = "%Y-%m-%d %H:%M:%S.%f"\<close>. The library turns the format into the
  regular expression
  \<^verbatim>\<open>(\d\d\d\d)-(1[0-2]|0[1-9]|[1-9])-(3[0-1]|[1-2]\d|0[1-9]|[1-9]| [1-9])\s+\<close>
  \<^verbatim>\<open>(2[0-3]|[0-1]\d|\d):([0-5]\d|\d):(6[0-1]|[0-5]\d|\d)\.([0-9]{1,6})\<close>,
  matches it at the start of the text with a backtracking matcher, and raises
  \<^verbatim>\<open>ValueError\<close> when there is no match, when text remains after the first match found,
  or when the fields do not form a date. A matcher of a piece of the expression returns
  its matches in the order the backtracking matcher tries them, each with the text
  that remains. Characters are the code points below 256.
\<close>

type_synonym 'a matcher = "string \<Rightarrow> ('a \<times> string) list"

definition in_range :: "char \<Rightarrow> char \<Rightarrow> char \<Rightarrow> bool" where
  "in_range lo hi c = ((of_char lo :: nat) \<le> of_char c \<and> (of_char c :: nat) \<le> of_char hi)"

definition is_digit :: "char \<Rightarrow> bool" where
  "is_digit c = in_range (CHR ''0'') (CHR ''9'') c"

definition is_space :: "char \<Rightarrow> bool" where
  "is_space c = (let n = (of_char c :: nat) in
     (9 \<le> n \<and> n \<le> 13) \<or> (28 \<le> n \<and> n \<le> 32) \<or> n = 133 \<or> n = 160)"

definition digit_val :: "char \<Rightarrow> int" where
  "digit_val c = int (of_char c) - 48"

text \<open>\<^verbatim>\<open>int(s)\<close> on a text of digits.\<close>

definition int_of_digits :: "string \<Rightarrow> int" where
  "int_of_digits s = foldl (\<lambda>n c. 10 * n + digit_val c) 0 s"

text \<open>One alternative of two characters, one of one character, and the literal.\<close>

definition two :: "(char \<Rightarrow> bool) \<Rightarrow> (char \<Rightarrow> bool) \<Rightarrow> int matcher" where
  "two p q s = (case s of
       a # b # r \<Rightarrow> (if p a \<and> q b then [(10 * digit_val a + digit_val b, r)] else [])
     | _ \<Rightarrow> [])"

definition one :: "(char \<Rightarrow> bool) \<Rightarrow> int matcher" where
  "one p s = (case s of a # r \<Rightarrow> (if p a then [(digit_val a, r)] else []) | _ \<Rightarrow> [])"

definition lit :: "char \<Rightarrow> unit matcher" where
  "lit c s = (case s of a # r \<Rightarrow> (if a = c then [((), r)] else []) | _ \<Rightarrow> [])"

definition re_Y :: "int matcher" where
  "re_Y s = (case s of
       a # b # c # d # r \<Rightarrow>
         (if is_digit a \<and> is_digit b \<and> is_digit c \<and> is_digit d
          then [(int_of_digits [a, b, c, d], r)] else [])
     | _ \<Rightarrow> [])"

definition re_m :: "int matcher" where
  "re_m s = two (\<lambda>c. c = CHR ''1'') (in_range (CHR ''0'') (CHR ''2'')) s
          @ two (\<lambda>c. c = CHR ''0'') (in_range (CHR ''1'') (CHR ''9'')) s
          @ one (in_range (CHR ''1'') (CHR ''9'')) s"

text \<open>The last alternative of \<^verbatim>\<open>%d\<close> is a space and a digit; \<^verbatim>\<open>int\<close> skips the space.\<close>

definition re_d :: "int matcher" where
  "re_d s = two (\<lambda>c. c = CHR ''3'') (in_range (CHR ''0'') (CHR ''1'')) s
          @ two (in_range (CHR ''1'') (CHR ''2'')) is_digit s
          @ two (\<lambda>c. c = CHR ''0'') (in_range (CHR ''1'') (CHR ''9'')) s
          @ one (in_range (CHR ''1'') (CHR ''9'')) s
          @ (case s of
               a # b # r \<Rightarrow>
                 (if a = CHR '' '' \<and> in_range (CHR ''1'') (CHR ''9'') b
                  then [(digit_val b, r)] else [])
             | _ \<Rightarrow> [])"

definition re_H :: "int matcher" where
  "re_H s = two (\<lambda>c. c = CHR ''2'') (in_range (CHR ''0'') (CHR ''3'')) s
          @ two (in_range (CHR ''0'') (CHR ''1'')) is_digit s
          @ one is_digit s"

definition re_M :: "int matcher" where
  "re_M s = two (in_range (CHR ''0'') (CHR ''5'')) is_digit s @ one is_digit s"

definition re_S :: "int matcher" where
  "re_S s = two (\<lambda>c. c = CHR ''6'') (in_range (CHR ''0'') (CHR ''1'')) s
          @ two (in_range (CHR ''0'') (CHR ''5'')) is_digit s
          @ one is_digit s"

text \<open>
  \<^verbatim>\<open>\s+\<close> and \<^verbatim>\<open>[0-9]{1,6}\<close> are greedy: the longest run first, then shorter ones. The
  digits of \<^verbatim>\<open>%f\<close> are padded with zeros on the right to six before \<^verbatim>\<open>int\<close>.
\<close>

definition re_spaces :: "unit matcher" where
  "re_spaces s = map (\<lambda>k. ((), drop k s)) (rev [1 ..< Suc (length (takeWhile is_space s))])"

definition re_f :: "int matcher" where
  "re_f s =
     map (\<lambda>k. (int_of_digits (take k s @ replicate (6 - k) (CHR ''0'')), drop k s))
       (rev [1 ..< Suc (length (takeWhile is_digit (take 6 s)))])"

definition format_regex_matches :: "fields matcher" where
  "format_regex_matches s =
     List.bind (re_Y s) (\<lambda>(Y, s).
     List.bind (lit (CHR ''-'') s) (\<lambda>(_, s).
     List.bind (re_m s) (\<lambda>(m, s).
     List.bind (lit (CHR ''-'') s) (\<lambda>(_, s).
     List.bind (re_d s) (\<lambda>(d, s).
     List.bind (re_spaces s) (\<lambda>(_, s).
     List.bind (re_H s) (\<lambda>(H, s).
     List.bind (lit (CHR '':'') s) (\<lambda>(_, s).
     List.bind (re_M s) (\<lambda>(M, s).
     List.bind (lit (CHR '':'') s) (\<lambda>(_, s).
     List.bind (re_S s) (\<lambda>(S, s).
     List.bind (lit (CHR ''.'') s) (\<lambda>(_, s).
     List.bind (re_f s) (\<lambda>(f, s).
       [((Y, m, d, H, M, S, f), s)])))))))))))))"

definition strptime :: "string \<Rightarrow> error + datetime" where
  "strptime data_string =
     (case format_regex_matches data_string of
        [] \<Rightarrow> Inl ValueError
      | ((Y, m, d, H, M, S, f), rest) # _ \<Rightarrow>
          (if rest \<noteq> [] then Inl ValueError else datetime_new Y m d H M S f))"

subsection \<open>Writing a timestamp in the fixed format\<close>

text \<open>
  The program only reads timestamps. The format \<^verbatim>\<open>YYYY-MM-DD HH:MM:SS.ffffff\<close> of the
  specification is written here as the specification words it: every field in decimal
  digits, padded with zeros on the left to its width.
\<close>

definition digit_char :: "int \<Rightarrow> char" where
  "digit_char n = char_of (48 + nat n)"

fun zero_padded :: "nat \<Rightarrow> int \<Rightarrow> string" where
  "zero_padded 0 n = []"
| "zero_padded (Suc width) n = zero_padded width (n div 10) @ [digit_char (n mod 10)]"

definition format_fields :: "fields \<Rightarrow> string" where
  "format_fields = (\<lambda>(Y, m, d, H, M, S, f).
     zero_padded 4 Y @ ''-'' @ zero_padded 2 m @ ''-'' @ zero_padded 2 d @ '' ''
       @ zero_padded 2 H @ '':'' @ zero_padded 2 M @ '':'' @ zero_padded 2 S @ ''.''
       @ zero_padded 6 f)"

definition strftime :: "datetime \<Rightarrow> string" where
  "strftime t = format_fields (datetime_fields t)"

section \<open>The timestamp extractor\<close>

text \<open>
  \<^verbatim>\<open>log_line.startswith("[")\<close>, \<^verbatim>\<open>log_line.split("]")[0]\<close> (the text before the first
  \<^verbatim>\<open>]\<close>, the whole text when there is none) and \<^verbatim>\<open>.lstrip("[")\<close> (which removes every
  leading \<^verbatim>\<open>[\<close>).
\<close>

fun startswith :: "string \<Rightarrow> char \<Rightarrow> bool" where
  "startswith [] c = False"
| "startswith (a # r) c = (a = c)"

fun split_first :: "string \<Rightarrow> char \<Rightarrow> string" where
  "split_first [] c = []"
| "split_first (a # r) c = (if a = c then [] else a # split_first r c)"

fun lstrip :: "string \<Rightarrow> char \<Rightarrow> string" where
  "lstrip [] c = []"
| "lstrip (a # r) c = (if a = c then lstrip r c else a # r)"

text \<open>
  \<^verbatim>\<open>get_datetime_from_log_line\<close> returns a \<^verbatim>\<open>datetime\<close>, returns \<^verbatim>\<open>None\<close> by falling
  off its end, or lets the \<^verbatim>\<open>ValueError\<close> of \<^verbatim>\<open>strptime\<close> through.
\<close>

definition get_datetime_from_log_line :: "string \<Rightarrow> error + datetime option" where
  "get_datetime_from_log_line log_line =
     (if startswith log_line (CHR ''['')
      then (let log_datetime = lstrip (split_first log_line (CHR '']'')) (CHR ''['')
            in case strptime log_datetime of
                 Inl e \<Rightarrow> Inl e
               | Inr log_date_object \<Rightarrow> Inr (Some log_date_object))
      else Inr None)"

section \<open>The interval aggregator\<close>

text \<open>
  The histogram is a Python dictionary from bucket boundary to count. Its keys keep
  the order in which they were first stored, and the callers print and plot it in
  that order, so it is an association list with one entry per key: storing under a
  key that is present replaces the value where it stands, storing under a new key
  appends.
\<close>

type_synonym histogram = "(datetime \<times> int) list"

fun dict_get :: "histogram \<Rightarrow> datetime \<Rightarrow> int option" where
  "dict_get [] k = None"
| "dict_get ((k', v') # d) k = (if k' = k then Some v' else dict_get d k)"

fun dict_set :: "histogram \<Rightarrow> datetime \<Rightarrow> int \<Rightarrow> histogram" where
  "dict_set [] k v = [(k, v)]"
| "dict_set ((k', v') # d) k v = (if k' = k then (k', v) # d else (k', v') # dict_set d k v)"

text \<open>
  The log file is the list of its lines, as iterating over the file yields them.
  \<^verbatim>\<open>readline\<close> returns the next line and, at the end of the file, the empty text,
  again and again.
\<close>

fun readline :: "string list \<Rightarrow> string \<times> string list" where
  "readline [] = ([], [])"
| "readline (log_line # rest) = (log_line, rest)"

text \<open>
  Lines 59 to 61: \<^verbatim>\<open>while log_date_object is None\<close> reads lines until one yields a
  timestamp. The loop has no other exit, so it is a partial function: \<open>None\<close> is
  the loop that never ends, \<open>Some (Inl e)\<close> an exception raised in it.
\<close>

partial_function (option) first_log_date :: "string list \<Rightarrow> (error + datetime) option" where
  "first_log_date log_file =
     (case readline log_file of
        (log_line, rest) \<Rightarrow>
          (case get_datetime_from_log_line log_line of
             Inl e \<Rightarrow> Some (Inl e)
           | Inr None \<Rightarrow> first_log_date rest
           | Inr (Some log_date_object) \<Rightarrow> Some (Inr log_date_object)))"

text \<open>
  Line 63, the pre-seeding: one key \<^verbatim>\<open>log_date_object + log_time_object * delta\<close> with
  the value 0 for each \<^verbatim>\<open>log_time_object\<close> in \<^verbatim>\<open>range(timedelta(days=1) // delta)\<close>.
\<close>

fun seed_from :: "datetime \<Rightarrow> timedelta \<Rightarrow> int list \<Rightarrow> histogram \<Rightarrow> error + histogram" where
  "seed_from anchor delta [] d = Inr d"
| "seed_from anchor delta (log_time_object # ks) d =
     (case dt_add anchor (log_time_object * delta) of
        Inl e \<Rightarrow> Inl e
      | Inr key \<Rightarrow> seed_from anchor delta ks (dict_set d key 0))"

definition seed_buckets :: "datetime \<Rightarrow> timedelta \<Rightarrow> error + histogram" where
  "seed_buckets anchor delta =
     (case td_floordiv (td_days 1) delta of
        Inl e \<Rightarrow> Inl e
      | Inr n \<Rightarrow> seed_from anchor delta [0 .. n - 1] [])"

text \<open>
  Line 69, the rounding:
  \<^verbatim>\<open>log_date_object + (datetime.min - log_date_object) % delta\<close>.
\<close>

definition round_log_date :: "datetime \<Rightarrow> timedelta \<Rightarrow> error + datetime" where
  "round_log_date log_date_object delta =
     (case td_mod (dt_sub datetime_min log_date_object) delta of
        Inl e \<Rightarrow> Inl e
      | Inr r \<Rightarrow> dt_add log_date_object r)"

text \<open>Lines 70 to 74: count one line in its bucket.\<close>

definition incr_bucket :: "histogram \<Rightarrow> datetime \<Rightarrow> histogram" where
  "incr_bucket d k =
     (case dict_get d k of
        None \<Rightarrow> dict_set d k 1
      | Some existing_value \<Rightarrow> dict_set d k (existing_value + 1))"

text \<open>Lines 66 to 74: the scan of the whole file.\<close>

fun count_lines :: "timedelta \<Rightarrow> string list \<Rightarrow> histogram \<Rightarrow> error + histogram" where
  "count_lines delta [] d = Inr d"
| "count_lines delta (log_line # rest) d =
     (case get_datetime_from_log_line log_line of
        Inl e \<Rightarrow> Inl e
      | Inr None \<Rightarrow> count_lines delta rest d
      | Inr (Some log_date_object) \<Rightarrow>
          (case round_log_date log_date_object delta of
             Inl e \<Rightarrow> Inl e
           | Inr rounded_log_date_object \<Rightarrow>
               count_lines delta rest (incr_bucket d rounded_log_date_object)))"

text \<open>
  \<^verbatim>\<open>get_log_activity_interval\<close>, from the \<^verbatim>\<open>timedelta\<close> that line 55 builds from the
  \<^verbatim>\<open>interval\<close> dictionary. The file is read twice, from its start each time.
\<close>

definition get_log_activity_interval :: "string list \<Rightarrow> timedelta \<Rightarrow> (error + histogram) option" where
  "get_log_activity_interval log_file delta =
     (case first_log_date log_file of
        None \<Rightarrow> None
      | Some (Inl e) \<Rightarrow> Some (Inl e)
      | Some (Inr log_date_object) \<Rightarrow>
          Some (case seed_buckets (combine_midnight log_date_object) delta of
                  Inl e \<Rightarrow> Inl e
                | Inr d \<Rightarrow> count_lines delta log_file d))"

section \<open>What the claims speak of\<close>

text \<open>A line yields a timestamp when the extractor returns one.\<close>

definition yields_timestamp :: "string \<Rightarrow> bool" where
  "yields_timestamp log_line =
     (case get_datetime_from_log_line log_line of Inr (Some t) \<Rightarrow> True | _ \<Rightarrow> False)"

text \<open>The lines of a file whose timestamp the scan rounds to the boundary \<open>k\<close>.\<close>

definition bucket_lines :: "timedelta \<Rightarrow> datetime \<Rightarrow> string list \<Rightarrow> string list" where
  "bucket_lines delta k log_file =
     filter (\<lambda>log_line.
        case get_datetime_from_log_line log_line of
          Inr (Some t) \<Rightarrow> round_log_date t delta = Inr k
        | _ \<Rightarrow> False) log_file"

text \<open>The count that a run of the aggregator gives a bucket, when it returns a histogram.\<close>

definition bucket_count :: "(error + histogram) option \<Rightarrow> datetime \<Rightarrow> int option" where
  "bucket_count result k = (case result of Some (Inr h) \<Rightarrow> dict_get h k | _ \<Rightarrow> None)"

section \<open>Properties of the dictionary\<close>

lemma dict_get_set: "dict_get (dict_set d k v) k' = (if k' = k then Some v else dict_get d k')"
  by (induction d k v rule: dict_set.induct) auto

lemma dict_get_None_iff: "dict_get d k = None \<longleftrightarrow> k \<notin> fst ` set d"
  by (induction d k rule: dict_get.induct) auto

lemma dict_get_Some_mem: "dict_get d k = Some v \<Longrightarrow> (k, v) \<in> set d"
  by (induction d k rule: dict_get.induct) (auto split: if_splits)

lemma dict_get_distinct: "distinct (map fst d) \<Longrightarrow> (k, v) \<in> set d \<Longrightarrow> dict_get d k = Some v"
  by (induction d k rule: dict_get.induct) force+

lemma dict_set_new: "dict_get d k = None \<Longrightarrow> dict_set d k v = d @ [(k, v)]"
  by (induction d k v rule: dict_set.induct) (auto split: if_splits)

lemma keys_dict_set:
  "map fst (dict_set d k v) = (if dict_get d k = None then map fst d @ [k] else map fst d)"
  by (induction d k v rule: dict_set.induct) auto

lemma sum_dict_set:
  "sum_list (map snd (dict_set d k v)) =
     sum_list (map snd d) + v - (case dict_get d k of None \<Rightarrow> 0 | Some v0 \<Rightarrow> v0)"
  by (induction d k v rule: dict_set.induct) auto

lemma dict_get_incr:
  "dict_get (incr_bucket d k) k' =
     (if k' = k then Some (case dict_get d k of None \<Rightarrow> 1 | Some v \<Rightarrow> v + 1) else dict_get d k')"
  by (simp add: incr_bucket_def dict_get_set split: option.splits)

lemma keys_incr:
  "map fst (incr_bucket d k) = (if dict_get d k = None then map fst d @ [k] else map fst d)"
  by (simp add: incr_bucket_def keys_dict_set split: option.splits)

lemma sum_incr: "sum_list (map snd (incr_bucket d k)) = sum_list (map snd d) + 1"
  by (simp add: incr_bucket_def sum_dict_set split: option.splits)

lemma distinct_incr: "distinct (map fst d) \<Longrightarrow> distinct (map fst (incr_bucket d k))"
  by (simp add: keys_incr dict_get_None_iff)

section \<open>Properties of the first scan\<close>

lemma get_datetime_empty: "get_datetime_from_log_line [] = Inr None"
  by (simp add: get_datetime_from_log_line_def)

lemma first_log_date_Cons:
  "first_log_date (l # ls) =
     (case get_datetime_from_log_line l of
        Inl e \<Rightarrow> Some (Inl e)
      | Inr None \<Rightarrow> first_log_date ls
      | Inr (Some t) \<Rightarrow> Some (Inr t))"
  by (subst first_log_date.simps) simp

lemma first_log_date_some_line:
  assumes "first_log_date ls = Some y"
  shows "\<exists>l \<in> set ls. get_datetime_from_log_line l \<noteq> Inr None"
proof (rule first_log_date.raw_induct
    [where P = "\<lambda>ls y. \<exists>l \<in> set ls. get_datetime_from_log_line l \<noteq> Inr None", OF _ assms])
  fix f :: "string list \<Rightarrow> (error + datetime) option" and ls y
  assume IH: "\<And>x y. f x = Some y \<Longrightarrow> \<exists>l \<in> set x. get_datetime_from_log_line l \<noteq> Inr None"
  assume step: "(case readline ls of
      (log_line, rest) \<Rightarrow>
        (case get_datetime_from_log_line log_line of
           Inl e \<Rightarrow> Some (Inl e)
         | Inr None \<Rightarrow> f rest
         | Inr (Some log_date_object) \<Rightarrow> Some (Inr log_date_object))) = Some y"
  show "\<exists>l \<in> set ls. get_datetime_from_log_line l \<noteq> Inr None"
  proof (cases ls)
    case Nil
    with step have "f [] = Some y" by (simp add: get_datetime_empty)
    from IH[OF this] show ?thesis by simp
  next
    case (Cons l rest)
    show ?thesis
    proof (cases "get_datetime_from_log_line l = Inr None")
      case True
      with step Cons have "f rest = Some y" by simp
      from IH[OF this] Cons show ?thesis by auto
    next
      case False
      with Cons show ?thesis by auto
    qed
  qed
qed

lemma first_log_date_Nil: "first_log_date [] = None"
  using first_log_date_some_line[of "[]"] by (cases "first_log_date []") auto

lemma first_log_date_none:
  "list_all (\<lambda>l. get_datetime_from_log_line l = Inr None) ls \<Longrightarrow> first_log_date ls = None"
  by (induction ls) (simp_all add: first_log_date_Nil first_log_date_Cons)

lemma first_log_date_returns:
  "\<exists>l \<in> set ls. get_datetime_from_log_line l \<noteq> Inr None \<Longrightarrow> \<exists>r. first_log_date ls = Some r"
  by (induction ls) (auto simp: first_log_date_Cons split: sum.splits option.splits)

lemma first_log_date_Inr:
  "first_log_date ls = Some (Inr t) \<Longrightarrow>
     \<exists>l \<in> set ls. get_datetime_from_log_line l = Inr (Some t)"
  by (induction ls) (auto simp: first_log_date_Nil first_log_date_Cons split: sum.splits option.splits)

lemma first_log_date_Inl:
  "first_log_date ls = Some (Inl e) \<Longrightarrow>
     \<exists>l \<in> set ls. get_datetime_from_log_line l = Inl e"
  by (induction ls) (auto simp: first_log_date_Nil first_log_date_Cons split: sum.splits option.splits)

lemma first_log_date_ok:
  "list_all (\<lambda>l. \<forall>e. get_datetime_from_log_line l \<noteq> Inl e) ls \<Longrightarrow>
   \<exists>l \<in> set ls. yields_timestamp l \<Longrightarrow>
   \<exists>t. first_log_date ls = Some (Inr t)"
  by (induction ls)
     (auto simp: first_log_date_Cons yields_timestamp_def split: sum.splits option.splits)

section \<open>Properties of the counting scan\<close>

lemma count_lines_sum:
  "count_lines w ls d = Inr h \<Longrightarrow>
     sum_list (map snd h) = sum_list (map snd d) + int (length (filter yields_timestamp ls))"
  by (induction ls arbitrary: d)
     (auto simp: sum_incr yields_timestamp_def split: sum.splits option.splits)

lemma count_lines_get:
  "count_lines w ls d = Inr h \<Longrightarrow>
     dict_get h k =
       (let n = int (length (bucket_lines w k ls)) in
        case dict_get d k of
          None \<Rightarrow> (if n = 0 then None else Some n)
        | Some v \<Rightarrow> Some (v + n))"
proof (induction ls arbitrary: d)
  case Nil
  then show ?case by (auto simp: bucket_lines_def split: option.splits)
next
  case (Cons l ls)
  show ?case
  proof (cases "get_datetime_from_log_line l")
    case (Inl e)
    with Cons.prems show ?thesis by simp
  next
    case (Inr o1)
    show ?thesis
    proof (cases o1)
      case None
      with Inr Cons.prems have "count_lines w ls d = Inr h" by simp
      from Cons.IH[OF this] Inr None show ?thesis by (simp add: bucket_lines_def)
    next
      case (Some t)
      with Inr Cons.prems obtain r where r: "round_log_date t w = Inr r"
        and c: "count_lines w ls (incr_bucket d r) = Inr h"
        by (auto split: sum.splits)
      from Cons.IH[OF c] Inr Some r show ?thesis
        by (auto simp: bucket_lines_def dict_get_incr Let_def split: option.splits)
    qed
  qed
qed

lemma count_lines_keys:
  "count_lines w ls d = Inr h \<Longrightarrow> \<exists>new. map fst h = map fst d @ new"
  by (induction ls arbitrary: d)
     (fastforce simp: keys_incr split: sum.splits option.splits if_splits)+

lemma count_lines_distinct:
  "count_lines w ls d = Inr h \<Longrightarrow> distinct (map fst d) \<Longrightarrow> distinct (map fst h)"
  by (induction ls arbitrary: d)
     (auto simp: distinct_incr split: sum.splits option.splits)

lemma count_lines_rounds:
  "count_lines w ls d = Inr h \<Longrightarrow> l \<in> set ls \<Longrightarrow> get_datetime_from_log_line l = Inr (Some t)
     \<Longrightarrow> \<exists>k. round_log_date t w = Inr k"
  by (induction ls arbitrary: d) (auto split: sum.splits option.splits)

lemma count_lines_no_error:
  "count_lines w ls d = Inr h \<Longrightarrow> l \<in> set ls \<Longrightarrow> get_datetime_from_log_line l \<noteq> Inl e"
  by (induction ls arbitrary: d) (auto split: sum.splits option.splits)

lemma count_lines_returns:
  "list_all (\<lambda>l. case get_datetime_from_log_line l of
                   Inl e \<Rightarrow> False
                 | Inr None \<Rightarrow> True
                 | Inr (Some t) \<Rightarrow> (case round_log_date t w of Inl e \<Rightarrow> False | Inr k \<Rightarrow> True)) ls
   \<Longrightarrow> \<exists>h. count_lines w ls d = Inr h"
  by (induction ls arbitrary: d) (auto split: sum.splits option.splits)

lemma aggregator_Inr:
  "get_log_activity_interval ls w = Some (Inr h) \<Longrightarrow>
     \<exists>t d. first_log_date ls = Some (Inr t) \<and> seed_buckets (combine_midnight t) w = Inr d
         \<and> count_lines w ls d = Inr h"
  by (auto simp: get_log_activity_interval_def split: option.splits sum.splits)

lemma div_pred:
  assumes "0 < k"
  shows "(y::int) div k = (y - 1) div k + (if y mod k = 0 then 1 else 0)"
proof (cases "y mod k = 0")
  case True
  have "y = k * (y div k) + y mod k" by simp
  with True have "y - 1 = k * (y div k - 1) + (k - 1)" by (simp add: algebra_simps)
  then have "(y - 1) div k = y div k - 1"
    by (rule int_div_pos_eq) (use assms in simp_all)
  with True show ?thesis by simp
next
  case False
  have "0 \<le> y mod k" "y mod k < k" using assms by simp_all
  with False have r: "0 \<le> y mod k - 1" "y mod k - 1 < k" by simp_all
  have "y - 1 = k * (y div k) + (y mod k - 1)" by simp
  then have "(y - 1) div k = y div k"
    using r by (rule int_div_pos_eq)
  with False show ?thesis by simp
qed

lemma leap_mods:
  fixes y :: int
  shows "y mod 100 = 0 \<Longrightarrow> y mod 4 = 0" "y mod 400 = 0 \<Longrightarrow> y mod 100 = 0"
proof -
  have a: "(4::int) dvd 100" "(100::int) dvd 400" by simp_all
  show "y mod 100 = 0 \<Longrightarrow> y mod 4 = 0"
    using dvd_trans[OF a(1), of y] by (simp add: mod_eq_0_iff_dvd)
  show "y mod 400 = 0 \<Longrightarrow> y mod 100 = 0"
    using dvd_trans[OF a(2), of y] by (simp add: mod_eq_0_iff_dvd)
qed

lemma dby_step:
  "days_before_year (y + 1) = days_before_year y + 365 + (if is_leap y then 1 else 0)"
proof -
  define a where "a = (y - 1) div 4"
  define b where "b = (y - 1) div 100"
  define c where "c = (y - 1) div 400"
  have s: "y div 4 = a + (if y mod 4 = 0 then 1 else 0)"
    "y div 100 = b + (if y mod 100 = 0 then 1 else 0)"
    "y div 400 = c + (if y mod 400 = 0 then 1 else 0)"
    unfolding a_def b_def c_def by (rule div_pred, simp)+
  have l: "days_before_year (y + 1) = y * 365 + y div 4 - y div 100 + y div 400"
    by (simp add: days_before_year_def Let_def)
  have r: "days_before_year y = (y - 1) * 365 + a - b + c"
    by (simp add: days_before_year_def Let_def a_def b_def c_def)
  show ?thesis
  proof (cases "y mod 4 = 0")
    case False
    then have "y mod 100 \<noteq> 0" "y mod 400 \<noteq> 0" using leap_mods[of y] by auto
    with False show ?thesis unfolding l r s by (simp add: is_leap_def)
  next
    case True
    show ?thesis
    proof (cases "y mod 100 = 0")
      case False
      then have "y mod 400 \<noteq> 0" using leap_mods[of y] by auto
      with True False show ?thesis unfolding l r s by (simp add: is_leap_def)
    next
      case h: True
      with True show ?thesis unfolding l r s by (simp add: is_leap_def)
    qed
  qed
qed


lemma dby_mono_aux: "0 \<le> n \<Longrightarrow> days_before_year y \<le> days_before_year (y + n)"
proof (induction n rule: int_ge_induct)
  case base
  then show ?case by simp
next
  case (step i)
  have "days_before_year (y + i) \<le> days_before_year (y + i + 1)" by (simp add: dby_step)
  with step show ?case by (simp add: add.assoc)
qed

lemma dby_mono: "a \<le> b \<Longrightarrow> days_before_year a \<le> days_before_year b"
  using dby_mono_aux[of "b - a" a] by simp

lemma dby_1: "days_before_year 1 = 0"
  by (simp add: days_before_year_def)

lemma dby_10000: "days_before_year 10000 = 3652059"
  by (simp add: days_before_year_def)

lemma month_cases:
  fixes m :: int
  assumes "1 \<le> m" "m \<le> 12"
  obtains "m = 1" | "m = 2" | "m = 3" | "m = 4" | "m = 5" | "m = 6"
    | "m = 7" | "m = 8" | "m = 9" | "m = 10" | "m = 11" | "m = 12"
proof -
  from assms have "m \<in> set [1..12]" by simp
  also have "[1..12] = [1, 2, 3, 4, 5, 6, 7, 8, 9, 10, 11, 12::int]"
    by (simp add: upto.simps)
  finally show thesis using that by auto
qed

lemma month_day_bound:
  assumes "1 \<le> m" "m \<le> 12" "1 \<le> d" "d \<le> days_in_month y m"
  shows "1 \<le> days_before_month y m + d"
    and "days_before_month y m + d \<le> 365 + (if is_leap y then 1 else 0)"
  using assms(1,2)
  by (cases m rule: month_cases;
      use assms(3,4) in \<open>simp add: days_before_month_def days_in_month_def
        days_before_month_tab_def days_in_month_tab_def split: if_splits\<close>)+

lemma ymd2ord_bounds:
  assumes "check_date_fields y m d"
  shows "1 \<le> ymd2ord y m d" "ymd2ord y m d \<le> 3652059"
proof -
  from assms have y: "1 \<le> y" "y \<le> 9999" and md: "1 \<le> m" "m \<le> 12" "1 \<le> d" "d \<le> days_in_month y m"
    by (auto simp: check_date_fields_def)
  note b = month_day_bound[OF md]
  have "0 \<le> days_before_year y" using dby_mono[OF y(1)] by (simp add: dby_1)
  with b(1) show "1 \<le> ymd2ord y m d" by (simp add: ymd2ord_def)
  have "days_before_year (y + 1) \<le> 3652059" using dby_mono[of "y + 1" 10000] y by (simp add: dby_10000)
  with b(2) show "ymd2ord y m d \<le> 3652059" by (simp add: ymd2ord_def dby_step split: if_splits)
qed

lemma datetime_new_valid:
  assumes "datetime_new Y m d H M S f = Inr t"
  shows "valid_datetime t"
proof -
  from assms have c: "check_date_fields Y m d" "check_time_fields H M S f"
    and t: "t = datetime_us Y m d H M S f"
    by (auto simp: datetime_new_def split: if_splits)
  note o = ymd2ord_bounds[OF c(1)]
  from c(2) have "0 \<le> ((H * 60 + M) * 60 + S) * 1000000 + f"
    "((H * 60 + M) * 60 + S) * 1000000 + f \<le> 86399999999"
    by (auto simp: check_time_fields_def)
  with o show ?thesis
    unfolding t valid_datetime_def datetime_us_def us_per_day_def us_per_second_def datetime_min_def datetime_max_def
    by simp
qed

lemma strptime_error: "strptime s = Inl e \<Longrightarrow> e = ValueError"
  by (auto simp: strptime_def datetime_new_def split: list.splits prod.splits if_splits)

lemma strptime_valid: "strptime s = Inr t \<Longrightarrow> valid_datetime t"
  by (auto simp: strptime_def split: list.splits prod.splits if_splits dest: datetime_new_valid)

lemma get_datetime_error: "get_datetime_from_log_line l = Inl e \<Longrightarrow> e = ValueError"
  by (auto simp: get_datetime_from_log_line_def Let_def split: if_splits sum.splits dest: strptime_error)

lemma get_datetime_valid: "get_datetime_from_log_line l = Inr (Some t) \<Longrightarrow> valid_datetime t"
  by (auto simp: get_datetime_from_log_line_def Let_def split: if_splits sum.splits dest: strptime_valid)

lemma midnight_bounds:
  assumes "valid_datetime t"
  shows "0 \<le> combine_midnight t" "combine_midnight t + us_per_day - 1 \<le> datetime_max"
    "combine_midnight t mod us_per_day = 0"
proof -
  from assms have t: "0 \<le> t" "t \<le> 315537897599999999"
    by (simp_all add: valid_datetime_def datetime_min_def datetime_max_def)
  have m: "combine_midnight t = 86400000000 * (t div 86400000000)"
    by (simp add: combine_midnight_def us_per_day_def minus_mod_eq_mult_div)
  have "0 \<le> t div 86400000000" using t(1) by (simp add: pos_imp_zdiv_nonneg_iff)
  then show "0 \<le> combine_midnight t" unfolding m by simp
  have "t div 86400000000 \<le> 315537897599999999 div 86400000000"
    using t(2) by (rule zdiv_mono1) simp
  then have "t div 86400000000 \<le> 3652058" by simp
  then show "combine_midnight t + us_per_day - 1 \<le> datetime_max"
    unfolding m by (simp add: us_per_day_def datetime_max_def)
  show "combine_midnight t mod us_per_day = 0" unfolding m by (simp add: us_per_day_def)
qed

section \<open>Properties of the pre-seeding\<close>

lemma seed_from_fresh:
  "distinct ks \<Longrightarrow> w \<noteq> 0 \<Longrightarrow> (\<forall>i \<in> set ks. valid_datetime (a + i * w)) \<Longrightarrow>
   (\<forall>i \<in> set ks. a + i * w \<notin> fst ` set d) \<Longrightarrow>
   seed_from a w ks d = Inr (d @ map (\<lambda>i. (a + i * w, 0)) ks)"
proof (induction ks arbitrary: d)
  case Nil
  then show ?case by simp
next
  case (Cons i ks)
  from Cons.prems have v: "dt_add a (i * w) = Inr (a + i * w)" by (simp add: dt_add_def)
  from Cons.prems have n: "dict_get d (a + i * w) = None" by (simp add: dict_get_None_iff)
  have "seed_from a w ks (d @ [(a + i * w, 0)]) = Inr ((d @ [(a + i * w, 0)]) @ map (\<lambda>i. (a + i * w, 0)) ks)"
  proof (rule Cons.IH)
    show "distinct ks" using Cons.prems by simp
    show "w \<noteq> 0" by fact
    show "\<forall>i \<in> set ks. valid_datetime (a + i * w)" using Cons.prems by simp
    show "\<forall>j \<in> set ks. a + j * w \<notin> fst ` set (d @ [(a + i * w, 0)])"
      using Cons.prems by auto
  qed
  with v n show ?case by (simp add: dict_set_new)
qed

lemma seed_buckets_pos:
  assumes w: "0 < w" and a: "0 \<le> a" "a + us_per_day - 1 \<le> datetime_max"
  shows "seed_buckets a w = Inr (map (\<lambda>i. (a + i * w, 0)) [0 .. us_per_day div w - 1])"
proof -
  let ?n = "us_per_day div w"
  have nw: "?n * w \<le> us_per_day"
  proof -
    have "us_per_day = ?n * w + us_per_day mod w" by simp
    moreover have "0 \<le> us_per_day mod w" using w by simp
    ultimately show ?thesis by linarith
  qed
  have valid: "valid_datetime (a + i * w)" if "i \<in> set [0 .. ?n - 1]" for i
  proof -
    from that have i: "0 \<le> i" "i + 1 \<le> ?n" by simp_all
    from i(2) w have "(i + 1) * w \<le> ?n * w" by (intro mult_right_mono) simp_all
    with nw have "i * w + w \<le> us_per_day" by (simp add: algebra_simps)
    with w have u: "i * w \<le> us_per_day - 1" by simp
    from i(1) w have "0 \<le> i * w" by simp
    with u a show ?thesis by (simp add: valid_datetime_def datetime_min_def)
  qed
  have "seed_from a w [0 .. ?n - 1] [] = Inr ([] @ map (\<lambda>i. (a + i * w, 0)) [0 .. ?n - 1])"
    by (rule seed_from_fresh) (use w valid in auto)
  then show ?thesis using w by (simp add: seed_buckets_def td_floordiv_def td_days_def)
qed

lemma distinct_dict_set: "distinct (map fst d) \<Longrightarrow> distinct (map fst (dict_set d k v))"
  by (simp add: keys_dict_set dict_get_None_iff)

lemma seed_from_distinct:
  "seed_from a w ks d = Inr h \<Longrightarrow> distinct (map fst d) \<Longrightarrow> distinct (map fst h)"
  by (induction ks arbitrary: d) (auto simp: distinct_dict_set split: sum.splits)

lemma seed_buckets_distinct: "seed_buckets a w = Inr d \<Longrightarrow> distinct (map fst d)"
  by (auto simp: seed_buckets_def split: sum.splits dest: seed_from_distinct)

section \<open>Properties of the rounding\<close>

lemma round_log_date_pos:
  assumes "w \<noteq> 0"
  shows "round_log_date t w = dt_add t ((datetime_min - t) mod w)"
  using assms by (simp add: round_log_date_def td_mod_def dt_sub_def)

lemma round_up_props:
  fixes t w :: int
  assumes "0 < w"
  defines "k \<equiv> t + (datetime_min - t) mod w"
  shows "(k - datetime_min) mod w = 0" "t \<le> k" "k < t + w"
proof -
  have "(t + (- t) mod w) mod w = (t + (- t)) mod w" by (rule mod_add_right_eq)
  then show "(k - datetime_min) mod w = 0" by (simp add: k_def datetime_min_def)
  have "0 \<le> (datetime_min - t) mod w" "(datetime_min - t) mod w < w" using assms(1) by simp_all
  then show "t \<le> k" "k < t + w" by (simp_all add: k_def)
qed

lemma split_first_takeWhile: "split_first s c = takeWhile (\<lambda>x. x \<noteq> c) s"
  by (induction s) auto

lemma lstrip_dropWhile: "lstrip s c = dropWhile (\<lambda>x. x = c) s"
  by (induction s) auto

lemma set_dict_set: "set (dict_set d k v) \<subseteq> insert (k, v) (set d)"
  by (induction d k v rule: dict_set.induct) auto

lemma incr_bucket_nonneg:
  assumes "\<forall>(k, v) \<in> set d. 0 \<le> v"
  shows "\<forall>(k, v) \<in> set (incr_bucket d k'). 0 \<le> v"
proof (cases "dict_get d k'")
  case None
  then show ?thesis using assms set_dict_set[of d k' 1] by (auto simp: incr_bucket_def)
next
  case (Some v0)
  then have "0 \<le> v0" using assms dict_get_Some_mem[of d k' v0] by auto
  then show ?thesis using Some assms set_dict_set[of d k' "v0 + 1"] by (auto simp: incr_bucket_def)
qed

lemma count_lines_nonneg:
  "count_lines w ls d = Inr h \<Longrightarrow> \<forall>(k, v) \<in> set d. 0 \<le> v \<Longrightarrow> \<forall>(k, v) \<in> set h. 0 \<le> v"
proof (induction ls arbitrary: d)
  case Nil
  then show ?case by simp
next
  case (Cons l ls)
  show ?case
  proof (cases "get_datetime_from_log_line l")
    case (Inl e)
    with Cons.prems show ?thesis by simp
  next
    case (Inr o1)
    show ?thesis
    proof (cases o1)
      case None
      with Inr Cons show ?thesis by simp
    next
      case (Some t)
      with Inr Cons.prems obtain r where c: "count_lines w ls (incr_bucket d r) = Inr h"
        by (auto split: sum.splits)
      from Cons.IH[OF c incr_bucket_nonneg[OF Cons.prems(2)]] show ?thesis .
    qed
  qed
qed

lemma seed_from_zero:
  "seed_from a w ks d = Inr h \<Longrightarrow> \<forall>(k, v) \<in> set d. v = 0 \<Longrightarrow> \<forall>(k, v) \<in> set h. v = 0"
proof (induction ks arbitrary: d)
  case Nil
  then show ?case by simp
next
  case (Cons i ks)
  from Cons.prems(1) obtain key where c: "seed_from a w ks (dict_set d key 0) = Inr h"
    by (auto split: sum.splits)
  have "\<forall>(k, v) \<in> set (dict_set d key 0). v = 0"
    using Cons.prems(2) set_dict_set[of d key 0] by auto
  from Cons.IH[OF c this] show ?case .
qed

lemma seed_buckets_zero: "seed_buckets a w = Inr d \<Longrightarrow> \<forall>(k, v) \<in> set d. v = 0"
  by (auto simp: seed_buckets_def split: sum.splits dest!: seed_from_zero)

lemma round_ok:
  assumes "0 < w" "valid_datetime t" "t + w \<le> datetime_max + 1"
  shows "round_log_date t w = Inr (t + (datetime_min - t) mod w)"
proof -
  from round_up_props[OF assms(1), of t] assms(2,3)
  have "valid_datetime (t + (datetime_min - t) mod w)"
    by (simp add: valid_datetime_def)
  with assms(1) show ?thesis by (simp add: round_log_date_pos dt_add_def)
qed

lemma round_log_date_result:
  assumes "w \<noteq> 0" "round_log_date t w = Inr k"
  shows "k = t + (datetime_min - t) mod w"
  using assms by (simp add: round_log_date_pos dt_add_def split: if_splits)

lemma count_lines_error:
  "count_lines w ls d = Inl e \<Longrightarrow>
     e = ValueError \<or>
     (\<exists>l \<in> set ls. \<exists>t. get_datetime_from_log_line l = Inr (Some t) \<and> round_log_date t w = Inl e)"
  by (induction ls arbitrary: d)
     (auto split: sum.splits option.splits dest: get_datetime_error)

lemma aggregator_eval:
  "first_log_date ls = Some (Inr t) \<Longrightarrow>
     get_log_activity_interval ls w =
       Some (case seed_buckets (combine_midnight t) w of
               Inl e \<Rightarrow> Inl e
             | Inr d \<Rightarrow> count_lines w ls d)"
  by (simp add: get_log_activity_interval_def)

lemma aggregator_returns:
  assumes w: "0 < w"
    and ok: "list_all (\<lambda>l. case get_datetime_from_log_line l of
                Inl e \<Rightarrow> False
              | Inr None \<Rightarrow> True
              | Inr (Some t) \<Rightarrow> t + w \<le> datetime_max + 1) ls"
    and some: "\<exists>l \<in> set ls. yields_timestamp l"
  shows "\<exists>h. get_log_activity_interval ls w = Some (Inr h)"
proof -
  have noerr: "list_all (\<lambda>l. \<forall>e. get_datetime_from_log_line l \<noteq> Inl e) ls"
    using ok by (auto simp: list_all_iff split: sum.splits)
  from first_log_date_ok[OF noerr some] obtain t0 where t0: "first_log_date ls = Some (Inr t0)" ..
  from first_log_date_Inr[OF t0] have "valid_datetime t0" by (auto dest: get_datetime_valid)
  note m = midnight_bounds[OF this]
  from seed_buckets_pos[OF w m(1,2)] obtain d where d: "seed_buckets (combine_midnight t0) w = Inr d"
    by blast
  have "list_all (\<lambda>l. case get_datetime_from_log_line l of
                   Inl e \<Rightarrow> False
                 | Inr None \<Rightarrow> True
                 | Inr (Some t) \<Rightarrow> (case round_log_date t w of Inl e \<Rightarrow> False | Inr k \<Rightarrow> True)) ls"
    unfolding list_all_iff
  proof
    fix l assume l: "l \<in> set ls"
    show "case get_datetime_from_log_line l of
                   Inl e \<Rightarrow> False
                 | Inr None \<Rightarrow> True
                 | Inr (Some t) \<Rightarrow> (case round_log_date t w of Inl e \<Rightarrow> False | Inr k \<Rightarrow> True)"
    proof (cases "get_datetime_from_log_line l")
      case (Inl e)
      with ok l show ?thesis by (auto simp: list_all_iff)
    next
      case (Inr o1)
      show ?thesis
      proof (cases o1)
        case None
        with Inr show ?thesis by simp
      next
        case (Some t)
        with Inr ok l have b: "t + w \<le> datetime_max + 1" by (auto simp: list_all_iff)
        from Inr Some have v: "valid_datetime t" by (auto dest: get_datetime_valid)
        from Inr Some round_ok[OF w v b] show ?thesis by simp
      qed
    qed
  qed
  from count_lines_returns[OF this] obtain h where "count_lines w ls d = Inr h" by blast
  with t0 d show ?thesis by (simp add: get_log_activity_interval_def)
qed

section \<open>The calendar: day numbers and dates\<close>

lemma dby_cycles:
  assumes "0 \<le> b" "b \<le> 3" "0 \<le> c" "c \<le> 24" "0 \<le> e" "e \<le> 3"
  shows "days_before_year (400 * a + 100 * b + 4 * c + e + 1)
           = 146097 * a + 36524 * b + 1461 * c + 365 * e"
proof -
  let ?y = "400 * a + 100 * b + 4 * c + e"
  have d4: "?y div 4 = 100 * a + 25 * b + c"
    by (rule int_div_pos_eq[where r = e]) (use assms in simp_all)
  have d100: "?y div 100 = 4 * a + b"
    by (rule int_div_pos_eq[where r = "4 * c + e"]) (use assms in simp_all)
  have d400: "?y div 400 = a"
    by (rule int_div_pos_eq[where r = "100 * b + 4 * c + e"]) (use assms in simp_all)
  show ?thesis
    by (simp add: days_before_year_def Let_def d4 d100 d400)
qed

lemma leap_cycles:
  assumes "0 \<le> b" "b \<le> 3" "0 \<le> c" "c \<le> 24" "0 \<le> e" "e \<le> 3"
  shows "is_leap (400 * a + 100 * b + 4 * c + e + 1) \<longleftrightarrow> e = 3 \<and> (c \<noteq> 24 \<or> b = 3)"
proof -
  let ?y = "400 * a + 100 * b + 4 * c + e + 1"
  show ?thesis
  proof (cases "e = 3")
    case False
    have "?y mod 4 = e + 1"
      by (rule int_mod_pos_eq[where q = "100 * a + 25 * b + c"]) (use assms False in simp_all)
    with assms show ?thesis using False by (simp add: is_leap_def)
  next
    case e: True
    have m4: "?y mod 4 = 0"
      by (rule int_mod_pos_eq[where q = "100 * a + 25 * b + c + 1"]) (use assms e in simp_all)
    show ?thesis
    proof (cases "c = 24")
      case False
      have "?y mod 100 = 4 * c + 4"
        by (rule int_mod_pos_eq[where q = "4 * a + b"]) (use assms e False in simp_all)
      with assms m4 e False show ?thesis by (simp add: is_leap_def)
    next
      case c: True
      have m100: "?y mod 100 = 0"
        by (rule int_mod_pos_eq[where q = "4 * a + b + 1"]) (use assms e c in simp_all)
      show ?thesis
      proof (cases "b = 3")
        case False
        have "?y mod 400 = 100 * b + 100"
          by (rule int_mod_pos_eq[where q = a]) (use assms e c False in simp_all)
        with assms m4 m100 e c False show ?thesis by (simp add: is_leap_def)
      next
        case True
        have "?y mod 400 = 0"
          by (rule int_mod_pos_eq[where q = "a + 1"]) (use assms e c True in simp_all)
        with m4 m100 e c True show ?thesis by (simp add: is_leap_def)
      qed
    qed
  qed
qed

lemma month_estimate:
  fixes n m :: int and leap :: bool
  assumes "0 \<le> n" "n \<le> 364" "32 * m \<le> n + 50" "n + 50 < 32 * m + 32"
  defines "p \<equiv> days_before_month_tab m + (if m > 2 \<and> leap then 1 else 0)"
  shows "case (if p > n
               then (m - 1, n - (p - (days_in_month_tab (m - 1)
                                        + (if m - 1 = 2 \<and> leap then 1 else 0))) + 1)
               else (m, n - p + 1)) of
           (m', d') \<Rightarrow>
             1 \<le> m' \<and> m' \<le> 12 \<and> 1 \<le> d' \<and>
             d' \<le> days_in_month_tab m' + (if m' = 2 \<and> leap then 1 else 0) \<and>
             days_before_month_tab m' + (if m' > 2 \<and> leap then 1 else 0) + d' = n + 1"
proof -
  from assms(1-4) have "1 \<le> m" "m \<le> 12" by linarith+
  then show ?thesis
  proof (cases m rule: month_cases)
    case 1 with assms(1-4) show ?thesis
      by (cases leap) (simp_all add: p_def days_before_month_tab_def days_in_month_tab_def)
  next
    case 2 with assms(1-4) show ?thesis
      by (cases leap) (simp_all add: p_def days_before_month_tab_def days_in_month_tab_def)
  next
    case 3 with assms(1-4) show ?thesis
      by (cases leap) (simp_all add: p_def days_before_month_tab_def days_in_month_tab_def)
  next
    case 4 with assms(1-4) show ?thesis
      by (cases leap) (simp_all add: p_def days_before_month_tab_def days_in_month_tab_def)
  next
    case 5 with assms(1-4) show ?thesis
      by (cases leap) (simp_all add: p_def days_before_month_tab_def days_in_month_tab_def)
  next
    case 6 with assms(1-4) show ?thesis
      by (cases leap) (simp_all add: p_def days_before_month_tab_def days_in_month_tab_def)
  next
    case 7 with assms(1-4) show ?thesis
      by (cases leap) (simp_all add: p_def days_before_month_tab_def days_in_month_tab_def)
  next
    case 8 with assms(1-4) show ?thesis
      by (cases leap) (simp_all add: p_def days_before_month_tab_def days_in_month_tab_def)
  next
    case 9 with assms(1-4) show ?thesis
      by (cases leap) (simp_all add: p_def days_before_month_tab_def days_in_month_tab_def)
  next
    case 10 with assms(1-4) show ?thesis
      by (cases leap) (simp_all add: p_def days_before_month_tab_def days_in_month_tab_def)
  next
    case 11 with assms(1-4) show ?thesis
      by (cases leap) (simp_all add: p_def days_before_month_tab_def days_in_month_tab_def)
  next
    case 12 with assms(1-4) show ?thesis
      by (cases leap) (simp_all add: p_def days_before_month_tab_def days_in_month_tab_def)
  qed
qed

lemma ord2ymd_unfold:
  assumes "a = (n - 1) div 146097" "r1 = (n - 1) mod 146097"
    "b = r1 div 36524" "r2 = r1 mod 36524"
    "c = r2 div 1461" "r3 = r2 mod 1461"
    "e = r3 div 365" "r4 = r3 mod 365"
  shows "ord2ymd n =
    (if e = 4 \<or> b = 4 then (a * 400 + 1 + b * 100 + c * 4 + e - 1, 12, 31)
     else if days_before_month_tab ((r4 + 50) div 32)
               + (if (r4 + 50) div 32 > 2 \<and> (e = 3 \<and> (c \<noteq> 24 \<or> b = 3)) then 1 else 0) > r4
          then (a * 400 + 1 + b * 100 + c * 4 + e, (r4 + 50) div 32 - 1,
                r4 - (days_before_month_tab ((r4 + 50) div 32)
                        + (if (r4 + 50) div 32 > 2 \<and> (e = 3 \<and> (c \<noteq> 24 \<or> b = 3)) then 1 else 0)
                      - (days_in_month_tab ((r4 + 50) div 32 - 1)
                          + (if (r4 + 50) div 32 - 1 = 2 \<and> (e = 3 \<and> (c \<noteq> 24 \<or> b = 3))
                             then 1 else 0))) + 1)
          else (a * 400 + 1 + b * 100 + c * 4 + e, (r4 + 50) div 32,
                r4 - (days_before_month_tab ((r4 + 50) div 32)
                        + (if (r4 + 50) div 32 > 2 \<and> (e = 3 \<and> (c \<noteq> 24 \<or> b = 3)) then 1 else 0))
                  + 1))"
  unfolding assms ord2ymd_def Let_def by simp

lemma year_below_10000:
  assumes "days_before_year y < 3652059"
  shows "y \<le> 9999"
proof (rule ccontr)
  assume "\<not> y \<le> 9999"
  then have "10000 \<le> y" by simp
  from dby_mono[OF this] assms show False by (simp add: dby_10000)
qed

lemma date_from_offset:
  assumes "1 \<le> y" "y \<le> 9999" "1 \<le> m" "m \<le> 12" "1 \<le> d"
    and "d \<le> days_in_month_tab m + (if m = 2 \<and> is_leap y then 1 else 0)"
    and "days_before_month_tab m + (if m > 2 \<and> is_leap y then 1 else 0) + d = k + 1"
  shows "check_date_fields y m d \<and> ymd2ord y m d = days_before_year y + k + 1"
proof -
  have "days_in_month y m = days_in_month_tab m + (if m = 2 \<and> is_leap y then 1 else 0)"
    by (simp add: days_in_month_def days_in_month_tab_def)
  with assms show ?thesis
    by (simp add: check_date_fields_def ymd2ord_def days_before_month_def)
qed

lemma ord2ymd_correct:
  assumes "1 \<le> n" "n \<le> 3652059"
  shows "case ord2ymd n of (y, m, d) \<Rightarrow> check_date_fields y m d \<and> ymd2ord y m d = n"
proof -
  define a where "a = (n - 1) div 146097"
  define r1 where "r1 = (n - 1) mod 146097"
  define b where "b = r1 div 36524"
  define r2 where "r2 = r1 mod 36524"
  define c where "c = r2 div 1461"
  define r3 where "r3 = r2 mod 1461"
  define e where "e = r3 div 365"
  define r4 where "r4 = r3 mod 365"
  note u = ord2ymd_unfold[OF a_def r1_def b_def r2_def c_def r3_def e_def r4_def]
  have n: "n - 1 = 146097 * a + r1" and r1: "0 \<le> r1" "r1 < 146097"
    by (simp_all add: a_def r1_def)
  have r1': "r1 = 36524 * b + r2" and r2: "0 \<le> r2" "r2 < 36524"
    by (simp_all add: b_def r2_def)
  have r2': "r2 = 1461 * c + r3" and r3: "0 \<le> r3" "r3 < 1461"
    by (simp_all add: c_def r3_def)
  have r3': "r3 = 365 * e + r4" and r4: "0 \<le> r4" "r4 < 365"
    by (simp_all add: e_def r4_def)
  have a: "0 \<le> a" using assms(1) by (simp add: a_def pos_imp_zdiv_nonneg_iff)
  have b: "0 \<le> b" "b \<le> 4" using r1 r1' r2 by linarith+
  have c: "0 \<le> c" "c \<le> 24" using r2 r2' r3 by linarith+
  have e: "0 \<le> e" "e \<le> 4" using r3 r3' r4 by linarith+
  show ?thesis
  proof (cases "b = 4")
    case True
    with r1 r1' r2 have z2: "r2 = 0" by linarith
    with r2' r3 c have "c = 0" "r3 = 0" by linarith+
    with r3' r4 e have z: "e = 0" "r4 = 0" by linarith+
    have y: "a * 400 + 1 + b * 100 + c * 4 + e - 1 = 400 * a + 100 * 3 + 4 * 24 + 3 + 1"
      using True \<open>c = 0\<close> z by simp
    have d: "days_before_year (400 * a + 100 * 3 + 4 * 24 + 3 + 1) = 146097 * a + 145731"
      by (subst dby_cycles) simp_all
    have l: "is_leap (400 * a + 100 * 3 + 4 * 24 + 3 + 1)"
      by (subst leap_cycles) simp_all
    have nn: "n = 146097 * a + 146097" using n r1' True z2 by simp
    have "400 * a + 100 * 3 + 4 * 24 + 3 + 1 \<le> 9999"
      by (rule year_below_10000) (use d nn assms(2) in simp)
    with a d l nn show ?thesis
      unfolding u y using True
      by (simp add: check_date_fields_def ymd2ord_def days_in_month_def days_in_month_tab_def
          days_before_month_def days_before_month_tab_def)
  next
    case b3: False
    with b have b': "b \<le> 3" by simp
    show ?thesis
    proof (cases "e = 4")
      case True
      with r3 r3' r4 have z: "r4 = 0" by linarith
      from True r3' z r2' r2 have c': "c \<le> 23" by linarith
      have y: "a * 400 + 1 + b * 100 + c * 4 + e - 1 = 400 * a + 100 * b + 4 * c + 3 + 1"
        using True by simp
      have d: "days_before_year (400 * a + 100 * b + 4 * c + 3 + 1)
                 = 146097 * a + 36524 * b + 1461 * c + 365 * 3"
        by (rule dby_cycles) (use b b' c in simp_all)
      have l: "is_leap (400 * a + 100 * b + 4 * c + 3 + 1)"
        by (subst leap_cycles) (use b b' c c' in simp_all)
      have nn: "n = 146097 * a + 36524 * b + 1461 * c + 1461"
        using n r1' r2' r3' True z by simp
      have "400 * a + 100 * b + 4 * c + 3 + 1 \<le> 9999"
        by (rule year_below_10000) (use d nn assms(2) in simp)
      moreover have "1 \<le> 400 * a + 100 * b + 4 * c + 3 + 1" using a b c by simp
      ultimately show ?thesis
        unfolding u y using True d l nn
        by (simp add: check_date_fields_def ymd2ord_def days_in_month_def days_in_month_tab_def
            days_before_month_def days_before_month_tab_def)
    next
      case e3: False
      with e have e': "e \<le> 3" by simp
      let ?y = "400 * a + 100 * b + 4 * c + e + 1"
      let ?leap = "e = 3 \<and> (c \<noteq> 24 \<or> b = 3)"
      let ?m = "(r4 + 50) div 32"
      have y: "a * 400 + 1 + b * 100 + c * 4 + e = ?y" by simp
      have d: "days_before_year ?y = 146097 * a + 36524 * b + 1461 * c + 365 * e"
        by (rule dby_cycles) (use b b' c e e' in simp_all)
      have l: "is_leap ?y \<longleftrightarrow> ?leap"
        by (rule leap_cycles) (use b b' c e e' in simp_all)
      have nn: "n = days_before_year ?y + r4 + 1"
        using n r1' r2' r3' d by simp
      have yr: "?y \<le> 9999"
        by (rule year_below_10000) (use nn r4 assms(2) in simp)
      have y1: "1 \<le> ?y" using a b c e by simp
      have m: "32 * ?m \<le> r4 + 50" "r4 + 50 < 32 * ?m + 32"
      proof -
        have "r4 + 50 = 32 * ?m + (r4 + 50) mod 32" by simp
        moreover have "0 \<le> (r4 + 50) mod 32" "(r4 + 50) mod 32 < 32" by simp_all
        ultimately show "32 * ?m \<le> r4 + 50" "r4 + 50 < 32 * ?m + 32" by linarith+
      qed
      from r4 have r4': "r4 \<le> 364" by simp
      let ?p = "days_before_month_tab ?m + (if ?m > 2 \<and> ?leap then 1 else 0)"
      let ?d1 = "r4 - (?p - (days_in_month_tab (?m - 1)
                              + (if ?m - 1 = 2 \<and> ?leap then 1 else 0))) + 1"
      let ?d2 = "r4 - ?p + 1"
      note est = month_estimate[OF r4(1) r4' m, of ?leap]
      have u': "ord2ymd n = (if ?p > r4 then (?y, ?m - 1, ?d1) else (?y, ?m, ?d2))"
        unfolding u y using b3 e3 by (simp only: simp_thms if_False)
      show ?thesis
      proof (cases "?p > r4")
        case True
        from est True have
          "1 \<le> ?m - 1 \<and> ?m - 1 \<le> 12 \<and> 1 \<le> ?d1 \<and>
           ?d1 \<le> days_in_month_tab (?m - 1) + (if ?m - 1 = 2 \<and> ?leap then 1 else 0) \<and>
           days_before_month_tab (?m - 1) + (if ?m - 1 > 2 \<and> ?leap then 1 else 0) + ?d1 = r4 + 1"
          by (simp only: if_True prod.case)
        then have "check_date_fields ?y (?m - 1) ?d1 \<and>
            ymd2ord ?y (?m - 1) ?d1 = days_before_year ?y + r4 + 1"
          unfolding l[symmetric] using y1 yr by (intro date_from_offset) simp_all
        with True show ?thesis unfolding u' nn[symmetric] by (simp only: if_True prod.case)
      next
        case False
        from est False have
          "1 \<le> ?m \<and> ?m \<le> 12 \<and> 1 \<le> ?d2 \<and>
           ?d2 \<le> days_in_month_tab ?m + (if ?m = 2 \<and> ?leap then 1 else 0) \<and>
           days_before_month_tab ?m + (if ?m > 2 \<and> ?leap then 1 else 0) + ?d2 = r4 + 1"
          by (simp only: if_False prod.case)
        then have "check_date_fields ?y ?m ?d2 \<and>
            ymd2ord ?y ?m ?d2 = days_before_year ?y + r4 + 1"
          unfolding l[symmetric] using y1 yr by (intro date_from_offset) simp_all
        with False show ?thesis unfolding u' nn[symmetric] by (simp only: if_False prod.case)
      qed
    qed
  qed
qed

lemma time_of_day_fields:
  fixes r :: int
  assumes "0 \<le> r" "r < 86400000000"
  defines "seconds \<equiv> r div 1000000"
  shows "check_time_fields (seconds div 3600) ((seconds div 60) mod 60) (seconds mod 60)
           (r mod 1000000)"
    and "(((seconds div 3600) * 60 + (seconds div 60) mod 60) * 60 + seconds mod 60) * 1000000
           + r mod 1000000 = r"
proof -
  define hh where "hh = seconds div 3600"
  define mm where "mm = (seconds div 60) mod 60"
  define ss where "ss = seconds mod 60"
  define ff where "ff = r mod 1000000"
  define qq where "qq = seconds div 60"
  have s0: "0 \<le> seconds" using assms(1) by (simp add: seconds_def pos_imp_zdiv_nonneg_iff)
  have "r div 1000000 \<le> 86399999999 div 1000000"
    by (rule zdiv_mono1) (use assms(2) in simp_all)
  then have s1: "seconds \<le> 86399" by (simp add: seconds_def)
  have h: "hh = qq div 60"
    unfolding hh_def qq_def using zdiv_zmult2_eq[of 60 seconds 60] by simp
  have m0: "0 \<le> qq" using s0 by (simp add: qq_def pos_imp_zdiv_nonneg_iff)
  have "seconds div 60 \<le> 86399 div 60" by (rule zdiv_mono1) (use s1 in simp_all)
  then have m1: "qq \<le> 1439" by (simp add: qq_def)
  have h0: "0 \<le> hh" unfolding h using m0 by (simp add: pos_imp_zdiv_nonneg_iff)
  have "qq div 60 \<le> 1439 div 60" by (rule zdiv_mono1) (use m1 in simp_all)
  then have h1: "hh \<le> 23" unfolding h by simp
  have "0 \<le> mm" "mm < 60" "0 \<le> ss" "ss < 60" "0 \<le> ff" "ff < 1000000"
    by (simp_all add: mm_def ss_def ff_def)
  with h0 h1 have "check_time_fields hh mm ss ff"
    by (simp add: check_time_fields_def)
  then show "check_time_fields (seconds div 3600) ((seconds div 60) mod 60) (seconds mod 60)
           (r mod 1000000)"
    by (simp only: hh_def mm_def ss_def ff_def)
  have a: "seconds = 60 * qq + ss" by (simp add: qq_def ss_def)
  have b: "qq = 60 * hh + mm" unfolding h by (simp add: mm_def qq_def)
  have c: "r = 1000000 * seconds + ff" by (simp add: seconds_def ff_def)
  have "((hh * 60 + mm) * 60 + ss) * 1000000 + ff = r"
    using a b c by simp
  then show "(((seconds div 3600) * 60 + (seconds div 60) mod 60) * 60 + seconds mod 60) * 1000000
           + r mod 1000000 = r"
    by (simp only: hh_def mm_def ss_def ff_def)
qed

lemma datetime_fields_unfold:
  assumes "ord2ymd (t div 86400000000 + 1) = (Y, m, d)" "r = t mod 86400000000"
  shows "datetime_fields t =
      (Y, m, d, (r div 1000000) div 3600, ((r div 1000000) div 60) mod 60,
       (r div 1000000) mod 60, t mod 1000000)"
  by (simp add: datetime_fields_def Let_def us_per_day_def us_per_second_def assms)

lemma datetime_us_unfold:
  "datetime_us Y m d H M S f =
     (ymd2ord Y m d - 1) * 86400000000 + (((H * 60 + M) * 60 + S) * 1000000 + f)"
  by (simp add: datetime_us_def us_per_day_def us_per_second_def)

lemma datetime_fields_correct:
  assumes "valid_datetime t"
  shows "case datetime_fields t of
           (Y, m, d, H, M, S, f) \<Rightarrow>
             check_date_fields Y m d \<and> check_time_fields H M S f \<and>
             datetime_us Y m d H M S f = t"
proof -
  from assms have t: "0 \<le> t" "t \<le> 315537897599999999"
    by (simp_all add: valid_datetime_def datetime_min_def datetime_max_def)
  define q where "q = t div 86400000000"
  define r where "r = t mod 86400000000"
  have tq: "t = 86400000000 * q + r" and r: "0 \<le> r" "r < 86400000000"
    by (simp_all add: q_def r_def)
  have q0: "0 \<le> q" using t(1) by (simp add: q_def pos_imp_zdiv_nonneg_iff)
  have "t div 86400000000 \<le> 315537897599999999 div 86400000000"
    by (rule zdiv_mono1) (use t(2) in simp_all)
  then have q1: "q \<le> 3652058" by (simp add: q_def)
  obtain Y m d where o: "ord2ymd (q + 1) = (Y, m, d)" by (cases "ord2ymd (q + 1)") auto
  from ord2ymd_correct[of "q + 1"] q0 q1 o
  have date: "check_date_fields Y m d" "ymd2ord Y m d = q + 1" by simp_all
  have f: "t mod 1000000 = r mod 1000000"
    unfolding r_def by (rule mod_mod_cancel[symmetric]) simp
  note tod = time_of_day_fields[OF r]
  let ?H = "(r div 1000000) div 3600"
  let ?M = "((r div 1000000) div 60) mod 60"
  let ?S = "(r div 1000000) mod 60"
  let ?f = "r mod 1000000"
  have df: "datetime_fields t = (Y, m, d, ?H, ?M, ?S, ?f)"
    unfolding f[symmetric] by (rule datetime_fields_unfold) (use o in \<open>simp_all add: q_def r_def\<close>)
  have "datetime_us Y m d ?H ?M ?S ?f = (q + 1 - 1) * 86400000000 + r"
    by (simp only: datetime_us_unfold date(2) tod(2))
  also have "\<dots> = t" using tq by simp
  finally have us: "datetime_us Y m d ?H ?M ?S ?f = t" .
  show ?thesis unfolding df by (simp only: prod.case date(1) tod(1) us simp_thms)
qed

section \<open>Parsing what the fixed format writes\<close>

lemma of_char_digit:
  "0 \<le> k \<Longrightarrow> k \<le> 9 \<Longrightarrow> (of_char (digit_char k) :: nat) = 48 + nat k"
  by (simp add: digit_char_def)

lemma digit_val_digit: "0 \<le> k \<Longrightarrow> k \<le> 9 \<Longrightarrow> digit_val (digit_char k) = k"
  by (simp add: digit_val_def of_char_digit)

lemma of_char_digit_int:
  "0 \<le> k \<Longrightarrow> k \<le> 9 \<Longrightarrow> (of_char (digit_char k) :: int) = 48 + k"
  using of_char_digit[of k] of_nat_of_char[of "digit_char k", where ?'a = int] by simp

lemma in_range_digit:
  assumes "0 \<le> k" "k \<le> 9"
  shows "in_range lo hi (digit_char k) \<longleftrightarrow>
           (of_char lo :: int) \<le> 48 + k \<and> 48 + k \<le> (of_char hi :: int)"
proof -
  have "in_range lo hi (digit_char k) \<longleftrightarrow>
      int (of_char lo) \<le> int (of_char (digit_char k)) \<and>
      int (of_char (digit_char k)) \<le> int (of_char hi)"
    unfolding in_range_def by (simp only: of_nat_le_iff)
  then show ?thesis
    by (simp only: of_nat_of_char of_char_digit_int[OF assms])
qed

lemma is_digit_digit: "0 \<le> k \<Longrightarrow> k \<le> 9 \<Longrightarrow> is_digit (digit_char k)"
  by (simp add: is_digit_def in_range_digit)

lemma digit_char_eq:
  assumes "0 \<le> k" "k \<le> 9"
  shows "digit_char k = c \<longleftrightarrow> 48 + k = (of_char c :: int)"
proof -
  have "digit_char k = c \<longleftrightarrow> (of_char (digit_char k) :: int) = of_char c"
    by (simp only: of_char_eq_iff)
  then show ?thesis by (simp only: of_char_digit_int[OF assms])
qed

lemma not_space_digit:
  assumes "0 \<le> k" "k \<le> 9"
  shows "\<not> is_space (digit_char k)"
proof -
  from assms have "nat k \<le> 9" by simp
  then show ?thesis
    by (simp add: is_space_def of_char_digit[OF assms] Let_def)
qed

lemma two_digits:
  "0 \<le> a \<Longrightarrow> a \<le> 9 \<Longrightarrow> 0 \<le> b \<Longrightarrow> b \<le> 9 \<Longrightarrow>
     two p q (digit_char a # digit_char b # r) =
       (if p (digit_char a) \<and> q (digit_char b) then [(10 * a + b, r)] else [])"
  by (simp add: two_def digit_val_digit)

lemma re_m_head:
  assumes "0 \<le> a" "a \<le> 9" "0 \<le> b" "b \<le> 9" "1 \<le> 10 * a + b" "10 * a + b \<le> 12"
  shows "\<exists>more. re_m (digit_char a # digit_char b # r) = (10 * a + b, r) # more"
proof -
  from assms consider "a = 1" "b \<le> 2" | "a = 0" "1 \<le> b" by linarith
  then show ?thesis
  proof cases
    case 1
    with assms show ?thesis
      by (simp add: re_m_def two_digits in_range_digit digit_char_eq)
  next
    case 2
    with assms show ?thesis
      by (simp add: re_m_def two_digits in_range_digit digit_char_eq)
  qed
qed

lemma re_d_head:
  assumes "0 \<le> a" "a \<le> 9" "0 \<le> b" "b \<le> 9" "1 \<le> 10 * a + b" "10 * a + b \<le> 31"
  shows "\<exists>more. re_d (digit_char a # digit_char b # r) = (10 * a + b, r) # more"
proof -
  from assms consider "a = 3" "b \<le> 1" | "a = 1 \<or> a = 2" | "a = 0" "1 \<le> b" by linarith
  then show ?thesis
  proof cases
    case 1
    with assms show ?thesis
      by (simp add: re_d_def two_digits in_range_digit digit_char_eq)
  next
    case 2
    with assms show ?thesis
      by (auto simp add: re_d_def two_digits in_range_digit digit_char_eq is_digit_digit)
  next
    case 3
    with assms show ?thesis
      by (simp add: re_d_def two_digits in_range_digit digit_char_eq is_digit_digit)
  qed
qed

lemma re_H_head:
  assumes "0 \<le> a" "a \<le> 9" "0 \<le> b" "b \<le> 9" "10 * a + b \<le> 23"
  shows "\<exists>more. re_H (digit_char a # digit_char b # r) = (10 * a + b, r) # more"
proof -
  from assms consider "a = 2" "b \<le> 3" | "a = 0 \<or> a = 1" by linarith
  then show ?thesis
  proof cases
    case 1
    with assms show ?thesis
      by (simp add: re_H_def two_digits in_range_digit digit_char_eq)
  next
    case 2
    with assms show ?thesis
      by (auto simp add: re_H_def two_digits in_range_digit digit_char_eq is_digit_digit)
  qed
qed

lemma re_M_head:
  assumes "0 \<le> a" "a \<le> 9" "0 \<le> b" "b \<le> 9" "10 * a + b \<le> 59"
  shows "\<exists>more. re_M (digit_char a # digit_char b # r) = (10 * a + b, r) # more"
proof -
  from assms have "a \<le> 5" by linarith
  with assms show ?thesis
    by (simp add: re_M_def two_digits in_range_digit is_digit_digit)
qed

lemma re_S_head:
  assumes "0 \<le> a" "a \<le> 9" "0 \<le> b" "b \<le> 9" "10 * a + b \<le> 59"
  shows "\<exists>more. re_S (digit_char a # digit_char b # r) = (10 * a + b, r) # more"
proof -
  from assms have "a \<le> 5" by linarith
  with assms show ?thesis
    by (simp add: re_S_def two_digits in_range_digit is_digit_digit digit_char_eq)
qed

lemma mod10_digit: "0 \<le> (n::int) mod 10" "(n::int) mod 10 \<le> 9"
proof -
  have "n mod 10 < 10" by simp
  then show "n mod 10 \<le> 9" by linarith
qed simp

lemma zero_padded_length: "length (zero_padded w n) = w"
  by (induction w arbitrary: n) simp_all

lemma zero_padded_digits: "list_all is_digit (zero_padded w n)"
  by (induction w arbitrary: n) (simp_all add: is_digit_digit mod10_digit)

lemma int_of_digits_snoc: "int_of_digits (xs @ [c]) = 10 * int_of_digits xs + digit_val c"
  by (simp add: int_of_digits_def)

lemma zero_padded_value:
  "0 \<le> n \<Longrightarrow> n < 10 ^ w \<Longrightarrow> int_of_digits (zero_padded w n) = n"
proof (induction w arbitrary: n)
  case 0
  then show ?case by (simp add: int_of_digits_def)
next
  case (Suc w)
  from Suc.prems have "0 \<le> n div 10" by (simp add: pos_imp_zdiv_nonneg_iff)
  moreover have "n div 10 < 10 ^ w"
  proof -
    from Suc.prems have "n < 10 * 10 ^ w" by simp
    moreover have "n = 10 * (n div 10) + n mod 10" by simp
    moreover have "0 \<le> n mod 10" by simp
    ultimately have "10 * (n div 10) < 10 * 10 ^ w" by linarith
    then show ?thesis by simp
  qed
  ultimately have "int_of_digits (zero_padded w (n div 10)) = n div 10" by (rule Suc.IH)
  then show ?case
    by (simp add: int_of_digits_snoc digit_val_digit mod10_digit)
qed

lemma two_digit_decomp:
  assumes "0 \<le> n" "n \<le> 99"
  obtains a b where "zero_padded 2 n = [digit_char a, digit_char b]"
    "0 \<le> a" "a \<le> 9" "0 \<le> b" "b \<le> 9" "10 * a + b = n"
proof -
  have z: "zero_padded 2 n = [digit_char (n div 10 mod 10), digit_char (n mod 10)]"
    by (simp add: eval_nat_numeral)
  have "n div 10 \<le> 99 div 10" by (rule zdiv_mono1) (use assms in simp_all)
  then have a1: "n div 10 \<le> 9" by simp
  have a0: "0 \<le> n div 10" using assms by (simp add: pos_imp_zdiv_nonneg_iff)
  from a0 a1 have "n div 10 mod 10 = n div 10" by simp
  with z have z': "zero_padded 2 n = [digit_char (n div 10), digit_char (n mod 10)]" by simp
  have "10 * (n div 10) + n mod 10 = n" by simp
  with z' a0 a1 mod10_digit[of n] show thesis by (rule that)
qed

lemma re_Y_padded:
  assumes "0 \<le> Y" "Y \<le> 9999"
  shows "re_Y (zero_padded 4 Y @ r) = [(Y, r)]"
proof -
  have "length (zero_padded 4 Y) = 4" by (rule zero_padded_length)
  then obtain a b c d where z: "zero_padded 4 Y = [a, b, c, d]"
    by (auto simp: length_Suc_conv eval_nat_numeral)
  from zero_padded_digits[of 4 Y] z have dg: "is_digit a" "is_digit b" "is_digit c" "is_digit d"
    by simp_all
  from assms have "Y < 10 ^ 4" by simp
  from zero_padded_value[OF assms(1) this] z have "int_of_digits [a, b, c, d] = Y" by simp
  with dg show ?thesis unfolding z by (simp add: re_Y_def)
qed

lemma re_f_padded:
  assumes "0 \<le> f" "f \<le> 999999"
  shows "\<exists>more. re_f (zero_padded 6 f) = (f, []) # more"
proof -
  let ?s = "zero_padded 6 f"
  have len: "length ?s = 6" by (rule zero_padded_length)
  then have tk: "take 6 ?s = ?s" by simp
  have tw: "takeWhile is_digit ?s = ?s"
    using zero_padded_digits[of 6 f] by (simp add: list_all_iff takeWhile_eq_all_conv)
  from assms have "f < 10 ^ 6" by simp
  from zero_padded_value[OF assms(1) this] have v: "int_of_digits ?s = f" .
  have r: "rev [1 ..< Suc 6] = 6 # rev [1 ..< 6]" by (simp add: upt_rec)
  have "re_f ?s = (int_of_digits ?s, [])
      # map (\<lambda>k. (int_of_digits (take k ?s @ replicate (6 - k) (CHR ''0'')), drop k ?s))
          (rev [1 ..< 6])"
    unfolding re_f_def tk tw len r by (simp add: zero_padded_length)
  then show ?thesis unfolding v by blast
qed

lemma re_spaces_single:
  assumes "0 \<le> a" "a \<le> 9"
  shows "re_spaces (CHR '' '' # digit_char a # r) = [((), digit_char a # r)]"
proof -
  have "is_space (CHR '' '')" by (simp add: is_space_def)
  with not_space_digit[OF assms] show ?thesis
    by (simp add: re_spaces_def)
qed

lemma lit_same: "lit c (c # r) = [((), r)]"
  by (simp add: lit_def)

lemma bind_head: "xs = x # more \<Longrightarrow> f x = y # ys \<Longrightarrow> \<exists>zs. List.bind xs f = y # zs"
  by (simp add: List.bind_def)

lemma matches_formatted:
  assumes date: "check_date_fields Y m d" and time: "check_time_fields H M S f"
  shows "\<exists>more. format_regex_matches (format_fields (Y, m, d, H, M, S, f))
           = ((Y, m, d, H, M, S, f), []) # more"
proof -
  from date have Y: "0 \<le> Y" "Y \<le> 9999" and m: "1 \<le> m" "m \<le> 12" and d: "1 \<le> d" "d \<le> 31"
    by (auto simp: check_date_fields_def days_in_month_def days_in_month_tab_def split: if_splits)
  from time have H: "0 \<le> H" "H \<le> 23" and M: "0 \<le> M" "M \<le> 59" and S: "0 \<le> S" "S \<le> 59"
    and f: "0 \<le> f" "f \<le> 999999"
    by (auto simp: check_time_fields_def)
  obtain m1 m0 where zm: "zero_padded 2 m = [digit_char m1, digit_char m0]"
    and dm: "0 \<le> m1" "m1 \<le> 9" "0 \<le> m0" "m0 \<le> 9" "10 * m1 + m0 = m"
    by (rule two_digit_decomp[of m]) (use m in simp_all)
  obtain d1 d0 where zd: "zero_padded 2 d = [digit_char d1, digit_char d0]"
    and dd: "0 \<le> d1" "d1 \<le> 9" "0 \<le> d0" "d0 \<le> 9" "10 * d1 + d0 = d"
    by (rule two_digit_decomp[of d]) (use d in simp_all)
  obtain H1 H0 where zH: "zero_padded 2 H = [digit_char H1, digit_char H0]"
    and dH: "0 \<le> H1" "H1 \<le> 9" "0 \<le> H0" "H0 \<le> 9" "10 * H1 + H0 = H"
    by (rule two_digit_decomp[of H]) (use H in simp_all)
  obtain M1 M0 where zM: "zero_padded 2 M = [digit_char M1, digit_char M0]"
    and dM: "0 \<le> M1" "M1 \<le> 9" "0 \<le> M0" "M0 \<le> 9" "10 * M1 + M0 = M"
    by (rule two_digit_decomp[of M]) (use M in simp_all)
  obtain S1 S0 where zS: "zero_padded 2 S = [digit_char S1, digit_char S0]"
    and dS: "0 \<le> S1" "S1 \<le> 9" "0 \<le> S0" "S0 \<le> 9" "10 * S1 + S0 = S"
    by (rule two_digit_decomp[of S]) (use S in simp_all)
  define sf where "sf = zero_padded 6 f"
  define sS where "sS = digit_char S1 # digit_char S0 # CHR ''.'' # sf"
  define sM where "sM = digit_char M1 # digit_char M0 # CHR '':'' # sS"
  define sH where "sH = digit_char H1 # digit_char H0 # CHR '':'' # sM"
  define sd where "sd = digit_char d1 # digit_char d0 # CHR '' '' # sH"
  define sm where "sm = digit_char m1 # digit_char m0 # CHR ''-'' # sd"
  have fmt: "format_fields (Y, m, d, H, M, S, f) = zero_padded 4 Y @ (CHR ''-'' # sm)"
    by (simp add: format_fields_def zm zd zH zM zS sf_def sS_def sM_def sH_def sd_def sm_def)
  have pY: "re_Y (zero_padded 4 Y @ (CHR ''-'' # sm)) = [(Y, CHR ''-'' # sm)]"
    by (rule re_Y_padded[OF Y])
  obtain em where pm: "re_m sm = (m, CHR ''-'' # sd) # em"
    using re_m_head[OF dm(1-4), of "CHR ''-'' # sd"] m dm(5) unfolding sm_def by auto
  obtain ed where pd: "re_d sd = (d, CHR '' '' # sH) # ed"
    using re_d_head[OF dd(1-4), of "CHR '' '' # sH"] d dd(5) unfolding sd_def by auto
  have psp: "re_spaces (CHR '' '' # sH) = [((), sH)]"
    unfolding sH_def by (rule re_spaces_single[OF dH(1,2)])
  obtain eH where pH: "re_H sH = (H, CHR '':'' # sM) # eH"
    using re_H_head[OF dH(1-4), of "CHR '':'' # sM"] H dH(5) unfolding sH_def by auto
  obtain eM where pM: "re_M sM = (M, CHR '':'' # sS) # eM"
    using re_M_head[OF dM(1-4), of "CHR '':'' # sS"] M dM(5) unfolding sM_def by auto
  obtain eS where pS: "re_S sS = (S, CHR ''.'' # sf) # eS"
    using re_S_head[OF dS(1-4), of "CHR ''.'' # sf"] S dS(5) unfolding sS_def by auto
  obtain ef where pf: "re_f sf = (f, []) # ef"
    using re_f_padded[OF f] unfolding sf_def by auto
  show ?thesis
    unfolding fmt format_regex_matches_def
    by (simp add: pY pm pd psp pH pM pS pf lit_same)
qed

lemma strptime_format_fields:
  assumes "check_date_fields Y m d" and "check_time_fields H M S f"
  shows "strptime (format_fields (Y, m, d, H, M, S, f)) = Inr (datetime_us Y m d H M S f)"
proof -
  from matches_formatted[OF assms] obtain more where
    "format_regex_matches (format_fields (Y, m, d, H, M, S, f)) = ((Y, m, d, H, M, S, f), []) # more"
    ..
  with assms show ?thesis by (simp add: strptime_def datetime_new_def)
qed

lemma strptime_strftime:
  assumes "valid_datetime t"
  shows "strptime (strftime t) = Inr t"
proof -
  obtain Y m d H M S f where fl: "datetime_fields t = (Y, m, d, H, M, S, f)"
    by (cases "datetime_fields t") auto
  from datetime_fields_correct[OF assms] fl
  have c: "check_date_fields Y m d" "check_time_fields H M S f"
    and u: "datetime_us Y m d H M S f = t" by simp_all
  from strptime_format_fields[OF c] u show ?thesis by (simp add: strftime_def fl)
qed

lemma split_first_append: "c \<notin> set s \<Longrightarrow> split_first (s @ c # rest) c = s"
  by (induction s) auto

lemma lstrip_absent: "c \<notin> set s \<Longrightarrow> lstrip s c = s"
  by (cases s) auto

lemma format_fields_chars:
  assumes "c \<in> set (format_fields x)"
  shows "is_digit c \<or> c \<in> set ''- :.''"
proof -
  obtain Y m d H M S f where x: "x = (Y, m, d, H, M, S, f)" by (cases x) auto
  have "c \<in> set (zero_padded w n) \<Longrightarrow> is_digit c" for w n
    using zero_padded_digits[of w n] by (simp add: list_all_iff)
  with assms show ?thesis unfolding x format_fields_def by auto
qed

lemma strftime_no_bracket: "CHR ''['' \<notin> set (strftime t)" "CHR '']'' \<notin> set (strftime t)"
proof -
  have "\<not> is_digit (CHR ''['')" "\<not> is_digit (CHR '']'')"
    by (simp_all add: is_digit_def in_range_def)
  then show "CHR ''['' \<notin> set (strftime t)" "CHR '']'' \<notin> set (strftime t)"
    using format_fields_chars[of _ "datetime_fields t"] unfolding strftime_def by auto
qed

section \<open>The claims\<close>

text \<open>
  Claim C1 says that the aggregator rounds a timestamp down, to
  \<^verbatim>\<open>t - ((t - epoch) % w)\<close>, so that the line \<^verbatim>\<open>[2021-05-01 21:10:30.781] some text\<close>
  would be counted at 21:00 with a width of 30 minutes. Line 69 adds the remainder of
  \<^verbatim>\<open>datetime.min - t\<close>: the line is counted at 21:30, and the bucket of 21:00 stays at 0.
\<close>

theorem rounds_down_counterexample:
  "get_datetime_from_log_line ''[2021-05-01 21:10:30.781] some text''
     = Inr (Some (datetime_us 2021 5 1 21 10 30 781000)) \<and>
   datetime_us 2021 5 1 21 10 30 781000
     - dt_sub (datetime_us 2021 5 1 21 10 30 781000) datetime_min mod td_minutes 30
     = datetime_us 2021 5 1 21 0 0 0 \<and>
   bucket_count
     (get_log_activity_interval [''[2021-05-01 21:10:30.781] some text''] (td_minutes 30))
     (datetime_us 2021 5 1 21 0 0 0) = Some 0 \<and>
   bucket_count
     (get_log_activity_interval [''[2021-05-01 21:10:30.781] some text''] (td_minutes 30))
     (datetime_us 2021 5 1 21 30 0 0) = Some 1"
proof -
  have g: "get_datetime_from_log_line ''[2021-05-01 21:10:30.781] some text''
      = Inr (Some (datetime_us 2021 5 1 21 10 30 781000))"
    by code_simp
  have f: "first_log_date [''[2021-05-01 21:10:30.781] some text'']
      = Some (Inr (datetime_us 2021 5 1 21 10 30 781000))"
    by (simp only: first_log_date_Cons g sum.case option.case)
  have r: "datetime_us 2021 5 1 21 10 30 781000
     - dt_sub (datetime_us 2021 5 1 21 10 30 781000) datetime_min mod td_minutes 30
     = datetime_us 2021 5 1 21 0 0 0"
    by code_simp
  have b0: "bucket_count
     (get_log_activity_interval [''[2021-05-01 21:10:30.781] some text''] (td_minutes 30))
     (datetime_us 2021 5 1 21 0 0 0) = Some 0"
    unfolding aggregator_eval[OF f] by code_simp
  have b1: "bucket_count
     (get_log_activity_interval [''[2021-05-01 21:10:30.781] some text''] (td_minutes 30))
     (datetime_us 2021 5 1 21 30 0 0) = Some 1"
    unfolding aggregator_eval[OF f] by code_simp
  from g r b0 b1 show ?thesis by (intro conjI)
qed

text \<open>
  Claim C1, amended. For every line that yields a timestamp \<open>t\<close> and every positive
  interval width \<open>w\<close>, the aggregator counts the line at the boundary obtained by rounding
  \<open>t\<close> up to the nearest multiple of \<open>w\<close> from the epoch, \<^verbatim>\<open>t + ((epoch - t) % w)\<close>: that
  key is on a boundary, at or after \<open>t\<close> and less than \<open>w\<close> after it, and its count in the
  returned histogram is the number of lines of the file rounded to it, this line among
  them. With 30 minutes, \<^verbatim>\<open>[2021-05-01 21:10:30.781] some text\<close> is counted at 21:30.
\<close>

theorem line_counted_at_next_boundary:
  assumes "0 < w"
    and "get_log_activity_interval log_file w = Some (Inr h)"
    and "log_line \<in> set log_file"
    and "get_datetime_from_log_line log_line = Inr (Some t)"
  shows "\<exists>k. k = t + (datetime_min - t) mod w \<and>
           round_log_date t w = Inr k \<and>
           (k - datetime_min) mod w = 0 \<and> t \<le> k \<and> k < t + w \<and>
           log_line \<in> set (bucket_lines w k log_file) \<and>
           dict_get h k = Some (int (length (bucket_lines w k log_file)))"
proof -
  let ?k = "t + (datetime_min - t) mod w"
  from aggregator_Inr[OF assms(2)] obtain t0 d where
    s: "seed_buckets (combine_midnight t0) w = Inr d" and c: "count_lines w log_file d = Inr h"
    by blast
  from count_lines_rounds[OF c assms(3,4)] obtain k' where "round_log_date t w = Inr k'" ..
  with round_log_date_result[of w t k'] assms(1) have r: "round_log_date t w = Inr ?k" by simp
  with assms(3,4) have m: "log_line \<in> set (bucket_lines w ?k log_file)"
    by (simp add: bucket_lines_def)
  then have n: "0 < length (bucket_lines w ?k log_file)" by (cases "bucket_lines w ?k log_file") auto
  have z: "v = 0" if "dict_get d ?k = Some v" for v
    using seed_buckets_zero[OF s] dict_get_Some_mem[OF that] by auto
  have g: "dict_get h ?k = Some (int (length (bucket_lines w ?k log_file)))"
    using count_lines_get[OF c, of ?k] n z by (auto simp: Let_def split: option.splits)
  note p = round_up_props[OF assms(1), of t]
  show ?thesis
    by (rule exI[of _ ?k]) (intro conjI refl r p m g)
qed

theorem line_counted_at_next_boundary_witness:
  "0 < td_minutes 30 \<and>
   get_log_activity_interval [''[2021-05-01 21:10:30.781] some text''] (td_minutes 30)
     = Some (Inr (map (\<lambda>i. (datetime_us 2021 5 1 0 0 0 0 + i * td_minutes 30,
                              if i = 43 then 1 else 0)) [0..47])) \<and>
   ''[2021-05-01 21:10:30.781] some text'' \<in> set [''[2021-05-01 21:10:30.781] some text''] \<and>
   get_datetime_from_log_line ''[2021-05-01 21:10:30.781] some text''
     = Inr (Some (datetime_us 2021 5 1 21 10 30 781000)) \<and>
   round_log_date (datetime_us 2021 5 1 21 10 30 781000) (td_minutes 30)
     = Inr (datetime_us 2021 5 1 21 30 0 0) \<and>
   dict_get (map (\<lambda>i. (datetime_us 2021 5 1 0 0 0 0 + i * td_minutes 30,
                              if i = 43 then 1 else 0)) [0..47])
     (datetime_us 2021 5 1 21 30 0 0) = Some 1"
proof -
  let ?l = "''[2021-05-01 21:10:30.781] some text''"
  let ?h = "map (\<lambda>i. (datetime_us 2021 5 1 0 0 0 0 + i * td_minutes 30,
                              if i = 43 then 1 else (0::int))) [0..47]"
  have w: "0 < td_minutes 30" by code_simp
  have g: "get_datetime_from_log_line ?l = Inr (Some (datetime_us 2021 5 1 21 10 30 781000))"
    by code_simp
  have f: "first_log_date [?l] = Some (Inr (datetime_us 2021 5 1 21 10 30 781000))"
    by (simp only: first_log_date_Cons g sum.case option.case)
  have a: "get_log_activity_interval [?l] (td_minutes 30) = Some (Inr ?h)"
    unfolding aggregator_eval[OF f] by code_simp
  have m: "?l \<in> set [?l]" by simp
  have k: "datetime_us 2021 5 1 21 10 30 781000
        + (datetime_min - datetime_us 2021 5 1 21 10 30 781000) mod td_minutes 30
      = datetime_us 2021 5 1 21 30 0 0" by code_simp
  have n: "int (length (bucket_lines (td_minutes 30) (datetime_us 2021 5 1 21 30 0 0) [?l])) = 1"
    by code_simp
  from line_counted_at_next_boundary[OF w a m g] obtain kk where
    kk: "kk = datetime_us 2021 5 1 21 10 30 781000
        + (datetime_min - datetime_us 2021 5 1 21 10 30 781000) mod td_minutes 30"
    and r: "round_log_date (datetime_us 2021 5 1 21 10 30 781000) (td_minutes 30) = Inr kk"
    and c: "dict_get ?h kk = Some (int (length (bucket_lines (td_minutes 30) kk [?l])))"
    by (elim exE conjE)
  from kk k have e: "kk = datetime_us 2021 5 1 21 30 0 0" by (rule trans)
  from r have r': "round_log_date (datetime_us 2021 5 1 21 10 30 781000) (td_minutes 30)
     = Inr (datetime_us 2021 5 1 21 30 0 0)" unfolding e .
  from c have c': "dict_get ?h (datetime_us 2021 5 1 21 30 0 0) = Some 1" unfolding e n .
  show ?thesis by (intro conjI w a m g r' c')
qed

text \<open>
  Claim C2 says that a log file in which no line yields a timestamp makes the aggregator
  stop with an error. On a file whose lines all make the extractor return \<^verbatim>\<open>None\<close>, the
  loop of lines 60 and 61 reads the empty text at the end of the file for ever: the
  aggregator returns nothing, neither a histogram nor an error.
\<close>

theorem no_timestamp_never_returns:
  assumes "list_all (\<lambda>l. get_datetime_from_log_line l = Inr None) log_file"
  shows "get_log_activity_interval log_file delta = None"
  using first_log_date_none[OF assms] by (simp add: get_log_activity_interval_def)

theorem no_timestamp_never_returns_witness:
  "list_all (\<lambda>l. get_datetime_from_log_line l = Inr None)
     [''no timestamp here\<newline>'', ''still none\<newline>''] \<and>
   get_log_activity_interval [''no timestamp here\<newline>'', ''still none\<newline>'']
     (td_minutes 30) = None"
proof -
  have a: "list_all (\<lambda>l. get_datetime_from_log_line l = Inr None)
     [''no timestamp here\<newline>'', ''still none\<newline>'']"
    by (simp add: get_datetime_from_log_line_def)
  from a no_timestamp_never_returns[OF a] show ?thesis by (rule conjI)
qed

text \<open>
  Claim C3. The counts of the histogram that the aggregator returns add up to the
  number of lines of the file that yield a timestamp. The aggregator does return a
  histogram for a positive interval width and a file with a timestamped line, no
  malformed line, and no timestamp within the width of \<^verbatim>\<open>datetime.max\<close>.
\<close>

theorem histogram_total:
  "(0 < delta \<and>
    list_all (\<lambda>l. case get_datetime_from_log_line l of
                Inl e \<Rightarrow> False
              | Inr None \<Rightarrow> True
              | Inr (Some t) \<Rightarrow> t + delta \<le> datetime_max + 1) log_file \<and>
    list_ex yields_timestamp log_file
      \<longrightarrow> (\<exists>h. get_log_activity_interval log_file delta = Some (Inr h))) \<and>
   (\<forall>h. get_log_activity_interval log_file delta = Some (Inr h)
      \<longrightarrow> sum_list (map snd h) = int (length (filter yields_timestamp log_file)))"
proof (intro conjI impI allI)
  assume "0 < delta \<and>
    list_all (\<lambda>l. case get_datetime_from_log_line l of
                Inl e \<Rightarrow> False
              | Inr None \<Rightarrow> True
              | Inr (Some t) \<Rightarrow> t + delta \<le> datetime_max + 1) log_file \<and>
    list_ex yields_timestamp log_file"
  then show "\<exists>h. get_log_activity_interval log_file delta = Some (Inr h)"
    using aggregator_returns[of delta log_file] by (simp add: list_ex_iff)
next
  fix h assume "get_log_activity_interval log_file delta = Some (Inr h)"
  from aggregator_Inr[OF this] obtain t d where
    s: "seed_buckets (combine_midnight t) delta = Inr d" and c: "count_lines delta log_file d = Inr h"
    by blast
  from seed_buckets_zero[OF s] have "sum_list (map snd d) = 0"
    by (induction d) auto
  with count_lines_sum[OF c]
  show "sum_list (map snd h) = int (length (filter yields_timestamp log_file))" by simp
qed

theorem histogram_total_witness:
  "0 < td_minutes 30 \<and>
   list_all (\<lambda>l. case get_datetime_from_log_line l of
                Inl e \<Rightarrow> False
              | Inr None \<Rightarrow> True
              | Inr (Some t) \<Rightarrow> t + td_minutes 30 \<le> datetime_max + 1)
     [''[2021-05-01 21:10:30.781] some text\<newline>'', ''no timestamp here\<newline>'',
      ''[2021-05-01 21:40:00.5] more''] \<and>
   list_ex yields_timestamp
     [''[2021-05-01 21:10:30.781] some text\<newline>'', ''no timestamp here\<newline>'',
      ''[2021-05-01 21:40:00.5] more''] \<and>
   (\<exists>h. get_log_activity_interval
          [''[2021-05-01 21:10:30.781] some text\<newline>'', ''no timestamp here\<newline>'',
           ''[2021-05-01 21:40:00.5] more''] (td_minutes 30) = Some (Inr h) \<and>
        sum_list (map snd h) = 2)"
proof -
  let ?f = "[''[2021-05-01 21:10:30.781] some text\<newline>'', ''no timestamp here\<newline>'',
      ''[2021-05-01 21:40:00.5] more'']"
  have a: "0 < td_minutes 30" by code_simp
  have b: "list_all (\<lambda>l. case get_datetime_from_log_line l of
                Inl e \<Rightarrow> False
              | Inr None \<Rightarrow> True
              | Inr (Some t) \<Rightarrow> t + td_minutes 30 \<le> datetime_max + 1) ?f" by code_simp
  have c: "list_ex yields_timestamp ?f" by code_simp
  have n: "int (length (filter yields_timestamp ?f)) = 2" by code_simp
  from histogram_total[of "td_minutes 30" ?f] a b c n
  have "\<exists>h. get_log_activity_interval ?f (td_minutes 30) = Some (Inr h) \<and> sum_list (map snd h) = 2"
    by auto
  with a b c show ?thesis by blast
qed

text \<open>
  Claim C4. For every interval width \<open>w\<close> that divides one day evenly, the pre-seeding
  of line 63 creates exactly \<^verbatim>\<open>1 day / w\<close> buckets, all with the value 0, whose keys
  start at the day anchor (midnight of the date of the first timestamp), are spaced by
  \<open>w\<close> and strictly increase. With 30 minutes and the anchor 2021-05-01 00:00:00 the keys
  are 00:00, 00:30, ..., 23:30, 48 entries with the value 0.
\<close>

theorem preseeded_buckets:
  assumes "valid_datetime t" and "0 < w" and "td_mod (td_days 1) w = Inr 0"
  shows "\<exists>d. seed_buckets (combine_midnight t) w = Inr d \<and>
           int (length d) = us_per_day div w \<and>
           int (length d) * w = us_per_day \<and>
           (\<forall>i < length d. d ! i = (combine_midnight t + int i * w, 0)) \<and>
           sorted_wrt (<) (map fst d)"
proof -
  let ?a = "combine_midnight t"
  let ?n = "us_per_day div w"
  let ?d = "map (\<lambda>i. (?a + i * w, 0::int)) [0 .. ?n - 1]"
  note m = midnight_bounds[OF assms(1)]
  have s: "seed_buckets ?a w = Inr ?d" by (rule seed_buckets_pos[OF assms(2) m(1,2)])
  have n0: "0 \<le> ?n" using assms(2) by (simp add: us_per_day_def pos_imp_zdiv_nonneg_iff)
  then have len: "int (length ?d) = ?n" by simp
  from assms(3) have "us_per_day mod w = 0"
    by (simp add: td_mod_def td_days_def split: if_splits)
  then have ex: "int (length ?d) * w = us_per_day"
    unfolding len by (metis div_mult_mod_eq add.right_neutral)
  have nth: "?d ! i = (?a + int i * w, 0)" if "i < length ?d" for i
  proof -
    from that have "int i \<le> ?n - 1" by simp
    then have "[0 .. ?n - 1] ! i = 0 + int i" by (intro nth_upto) simp
    with that show ?thesis by simp
  qed
  have "sorted_wrt (<) (map fst ?d)"
    unfolding sorted_wrt_iff_nth_less
  proof (intro allI impI)
    fix i j assume ij: "i < j" "j < length (map fst ?d)"
    then have i: "i < length ?d" and j: "j < length ?d" by simp_all
    from ij(1) assms(2) have "int i * w < int j * w" by simp
    then show "map fst ?d ! i < map fst ?d ! j"
      using nth[OF i] nth[OF j] i j by (simp only: nth_map fst_conv)
  qed
  with s len ex nth show ?thesis by blast
qed

theorem preseeded_buckets_witness:
  "valid_datetime (datetime_us 2021 5 1 21 10 30 781000) \<and>
   0 < td_minutes 30 \<and>
   td_mod (td_days 1) (td_minutes 30) = Inr 0 \<and>
   combine_midnight (datetime_us 2021 5 1 21 10 30 781000) = datetime_us 2021 5 1 0 0 0 0 \<and>
   seed_buckets (datetime_us 2021 5 1 0 0 0 0) (td_minutes 30)
     = Inr (concat (map (\<lambda>hour. [(datetime_us 2021 5 1 hour 0 0 0, 0),
                                   (datetime_us 2021 5 1 hour 30 0 0, 0)]) [0..23])) \<and>
   (\<exists>d. seed_buckets (datetime_us 2021 5 1 0 0 0 0) (td_minutes 30) = Inr d \<and>
        length d = 48 \<and> sorted_wrt (<) (map fst d))"
proof -
  have v: "valid_datetime (datetime_us 2021 5 1 21 10 30 781000)" by code_simp
  have w: "0 < td_minutes 30" by code_simp
  have m: "td_mod (td_days 1) (td_minutes 30) = Inr 0" by code_simp
  have a: "combine_midnight (datetime_us 2021 5 1 21 10 30 781000) = datetime_us 2021 5 1 0 0 0 0"
    by code_simp
  have e: "seed_buckets (datetime_us 2021 5 1 0 0 0 0) (td_minutes 30)
     = Inr (concat (map (\<lambda>hour. [(datetime_us 2021 5 1 hour 0 0 0, 0),
                                   (datetime_us 2021 5 1 hour 30 0 0, 0)]) [0..23]))"
    by code_simp
  have q: "us_per_day div td_minutes 30 = 48" by code_simp
  from preseeded_buckets[OF v w m] obtain d where
    d: "seed_buckets (combine_midnight (datetime_us 2021 5 1 21 10 30 781000)) (td_minutes 30) = Inr d"
    and l: "int (length d) = us_per_day div td_minutes 30"
    and s: "sorted_wrt (<) (map fst d)"
    by (elim exE conjE)
  from l have l': "length d = 48" unfolding q by simp
  from d have d': "seed_buckets (datetime_us 2021 5 1 0 0 0 0) (td_minutes 30) = Inr d"
    unfolding a .
  have "\<exists>d. seed_buckets (datetime_us 2021 5 1 0 0 0 0) (td_minutes 30) = Inr d \<and>
        length d = 48 \<and> sorted_wrt (<) (map fst d)"
    by (rule exI[of _ d]) (intro conjI d' l' s)
  then show ?thesis by (intro conjI v w m a e)
qed

text \<open>
  Claim C5. For every line of text that does not start with \<^verbatim>\<open>[\<close>, the timestamp
  extractor returns "no timestamp" (\<^verbatim>\<open>None\<close>) and raises no error.
\<close>

theorem extractor_no_bracket:
  "\<not> startswith log_line (CHR ''['') \<Longrightarrow> get_datetime_from_log_line log_line = Inr None"
  by (simp add: get_datetime_from_log_line_def)

theorem extractor_no_bracket_witness:
  "\<not> startswith ''no timestamp here'' (CHR ''['') \<and>
   get_datetime_from_log_line ''no timestamp here'' = Inr None"
  using extractor_no_bracket[of "''no timestamp here''"] by simp

text \<open>
  Claim C6. For every line that starts with \<^verbatim>\<open>[\<close> and whose bracketed text
  \<^verbatim>\<open>strptime\<close> does not accept, the extractor fails with \<^verbatim>\<open>ValueError\<close>, and nothing
  catches it: the first scan and the counting scan fail with it when they reach the
  line, and the aggregator returns no histogram for any file that has the line but an
  error, the \<^verbatim>\<open>ValueError\<close> itself when the interval width is positive and no timestamp
  of the file is within the width of \<^verbatim>\<open>datetime.max\<close>.
\<close>

theorem malformed_timestamp_is_fatal:
  assumes "startswith log_line (CHR ''['')"
    and "strptime (lstrip (split_first log_line (CHR '']'')) (CHR ''['')) = Inl e"
  shows "get_datetime_from_log_line log_line = Inl ValueError \<and>
         (\<forall>rest. first_log_date (log_line # rest) = Some (Inl ValueError)) \<and>
         (\<forall>delta rest d. count_lines delta (log_line # rest) d = Inl ValueError) \<and>
         (\<forall>log_file delta. log_line \<in> set log_file \<longrightarrow>
            (\<exists>e'. get_log_activity_interval log_file delta = Some (Inl e'))) \<and>
         (\<forall>log_file delta.
            log_line \<in> set log_file \<and> 0 < delta \<and>
            list_all (\<lambda>l. case get_datetime_from_log_line l of
                        Inr (Some t) \<Rightarrow> t + delta \<le> datetime_max + 1
                      | _ \<Rightarrow> True) log_file
            \<longrightarrow> get_log_activity_interval log_file delta = Some (Inl ValueError))"
proof -
  from assms(2) have "e = ValueError" by (rule strptime_error)
  with assms have g: "get_datetime_from_log_line log_line = Inl ValueError"
    by (simp add: get_datetime_from_log_line_def)
  have f: "first_log_date (log_line # rest) = Some (Inl ValueError)" for rest
    by (simp add: first_log_date_Cons g)
  have c: "count_lines delta (log_line # rest) d = Inl ValueError" for delta rest d
    by (simp add: g)
  have fatal: "\<exists>e'. get_log_activity_interval log_file delta = Some (Inl e')"
    if m: "log_line \<in> set log_file" for log_file delta
  proof -
    from m g have "\<exists>l \<in> set log_file. get_datetime_from_log_line l \<noteq> Inr None" by force
    from first_log_date_returns[OF this] obtain r where r: "first_log_date log_file = Some r" ..
    show ?thesis
    proof (cases r)
      case (Inl e1)
      with r show ?thesis by (simp add: get_log_activity_interval_def)
    next
      case (Inr t0)
      show ?thesis
      proof (cases "seed_buckets (combine_midnight t0) delta")
        case (Inl e2)
        with r Inr show ?thesis by (simp add: get_log_activity_interval_def)
      next
        case s: (Inr d)
        show ?thesis
        proof (cases "count_lines delta log_file d")
          case (Inl e3)
          with r Inr s show ?thesis by (simp add: get_log_activity_interval_def)
        next
          case h: (Inr h)
          from count_lines_no_error[OF h m, of ValueError] g show ?thesis by simp
        qed
      qed
    qed
  qed
  have precise: "get_log_activity_interval log_file delta = Some (Inl ValueError)"
    if m: "log_line \<in> set log_file" and w: "0 < delta"
      and ok: "list_all (\<lambda>l. case get_datetime_from_log_line l of
                        Inr (Some t) \<Rightarrow> t + delta \<le> datetime_max + 1
                      | _ \<Rightarrow> True) log_file"
    for log_file delta
  proof -
    from fatal[OF m] obtain e' where e': "get_log_activity_interval log_file delta = Some (Inl e')" ..
    have "e' = ValueError"
    proof (cases "first_log_date log_file")
      case None
      with e' show ?thesis by (simp add: get_log_activity_interval_def)
    next
      case (Some r)
      show ?thesis
      proof (cases r)
        case (Inl e1)
        with Some e' have "e1 = e'" by (simp add: get_log_activity_interval_def)
        moreover from first_log_date_Inl[of log_file e1] Some Inl have "e1 = ValueError"
          by (auto dest: get_datetime_error)
        ultimately show ?thesis by simp
      next
        case (Inr t0)
        from first_log_date_Inr[of log_file t0] Some Inr have "valid_datetime t0"
          by (auto dest: get_datetime_valid)
        note b = midnight_bounds[OF this]
        from seed_buckets_pos[OF w b(1,2)] obtain d where
          d: "seed_buckets (combine_midnight t0) delta = Inr d" by blast
        with Some Inr e' have c: "count_lines delta log_file d = Inl e'"
          by (simp add: get_log_activity_interval_def split: sum.splits)
        from count_lines_error[OF c] show ?thesis
        proof
          assume "e' = ValueError" then show ?thesis .
        next
          assume "\<exists>l \<in> set log_file. \<exists>t. get_datetime_from_log_line l = Inr (Some t)
                    \<and> round_log_date t delta = Inl e'"
          then obtain l t where l: "l \<in> set log_file"
            and t: "get_datetime_from_log_line l = Inr (Some t)"
            and o: "round_log_date t delta = Inl e'" by blast
          from ok l t have "t + delta \<le> datetime_max + 1" by (auto simp: list_all_iff)
          from round_ok[OF w get_datetime_valid[OF t] this] o show ?thesis by simp
        qed
      qed
    qed
    with e' show ?thesis by simp
  qed
  from g f c fatal precise show ?thesis by blast
qed

theorem malformed_timestamp_is_fatal_witness:
  "startswith ''[2021-13-01 21:10:30.781] no such month'' (CHR ''['') \<and>
   strptime (lstrip (split_first ''[2021-13-01 21:10:30.781] no such month'' (CHR '']''))
               (CHR ''['')) = Inl ValueError \<and>
   get_datetime_from_log_line ''[2021-13-01 21:10:30.781] no such month'' = Inl ValueError \<and>
   get_log_activity_interval
     [''[2021-05-01 21:10:30.781] some text\<newline>'', ''[2021-13-01 21:10:30.781] no such month'']
     (td_minutes 30) = Some (Inl ValueError)"
proof -
  let ?bad = "''[2021-13-01 21:10:30.781] no such month''"
  let ?f = "[''[2021-05-01 21:10:30.781] some text\<newline>'', ?bad]"
  have s: "startswith ?bad (CHR ''['')" by simp
  have p: "strptime (lstrip (split_first ?bad (CHR '']'')) (CHR ''['')) = Inl ValueError"
    by code_simp
  have m: "?bad \<in> set ?f" by simp
  have w: "0 < td_minutes 30" by code_simp
  have ok: "list_all (\<lambda>l. case get_datetime_from_log_line l of
                        Inr (Some t) \<Rightarrow> t + td_minutes 30 \<le> datetime_max + 1
                      | _ \<Rightarrow> True) ?f" by code_simp
  note t = malformed_timestamp_is_fatal[OF s p]
  from t have g: "get_datetime_from_log_line ?bad = Inl ValueError" by (rule conjunct1)
  from t have "\<forall>log_file delta.
            ?bad \<in> set log_file \<and> 0 < delta \<and>
            list_all (\<lambda>l. case get_datetime_from_log_line l of
                        Inr (Some t) \<Rightarrow> t + delta \<le> datetime_max + 1
                      | _ \<Rightarrow> True) log_file
            \<longrightarrow> get_log_activity_interval log_file delta = Some (Inl ValueError)"
    by (elim conjE)
  then have "?bad \<in> set ?f \<and> 0 < td_minutes 30 \<and>
            list_all (\<lambda>l. case get_datetime_from_log_line l of
                        Inr (Some t) \<Rightarrow> t + td_minutes 30 \<le> datetime_max + 1
                      | _ \<Rightarrow> True) ?f
            \<longrightarrow> get_log_activity_interval ?f (td_minutes 30) = Some (Inl ValueError)"
    by (elim allE)
  with m w ok have a: "get_log_activity_interval ?f (td_minutes 30) = Some (Inl ValueError)"
    by (elim impE) (intro conjI)
  show ?thesis by (intro conjI s p g a)
qed

text \<open>
  Claim C7. For every valid timestamp \<open>T\<close>, writing \<open>T\<close> in the fixed format
  \<^verbatim>\<open>YYYY-MM-DD HH:MM:SS.ffffff\<close>, putting it in brackets at the start of a log line and
  applying the extractor returns \<open>T\<close>: the extractor is a left inverse of the format.
\<close>

theorem extract_formatted_timestamp:
  assumes "valid_datetime T"
  shows "strptime (strftime T) = Inr T \<and>
         get_datetime_from_log_line (CHR ''['' # strftime T @ CHR '']'' # rest) = Inr (Some T)"
proof -
  note p = strptime_strftime[OF assms]
  note nb = strftime_no_bracket[of T]
  have "split_first (CHR ''['' # strftime T @ CHR '']'' # rest) (CHR '']'')
          = CHR ''['' # strftime T"
    using split_first_append[of "CHR '']''" "CHR ''['' # strftime T" rest] nb(2) by simp
  moreover have "lstrip (CHR ''['' # strftime T) (CHR ''['') = strftime T"
    using lstrip_absent[OF nb(1)] by simp
  ultimately have "get_datetime_from_log_line (CHR ''['' # strftime T @ CHR '']'' # rest)
      = Inr (Some T)"
    by (simp add: get_datetime_from_log_line_def p)
  with p show ?thesis ..
qed

theorem extract_formatted_timestamp_witness:
  "valid_datetime (datetime_us 2021 5 1 21 10 30 781000) \<and>
   strftime (datetime_us 2021 5 1 21 10 30 781000) = ''2021-05-01 21:10:30.781000'' \<and>
   get_datetime_from_log_line ''[2021-05-01 21:10:30.781000] some text''
     = Inr (Some (datetime_us 2021 5 1 21 10 30 781000))"
proof -
  have v: "valid_datetime (datetime_us 2021 5 1 21 10 30 781000)" by code_simp
  have s: "strftime (datetime_us 2021 5 1 21 10 30 781000) = ''2021-05-01 21:10:30.781000''"
    by code_simp
  from extract_formatted_timestamp[OF v, of "'' some text''"]
  have "get_datetime_from_log_line
          (CHR ''['' # strftime (datetime_us 2021 5 1 21 10 30 781000) @ CHR '']'' # '' some text'')
        = Inr (Some (datetime_us 2021 5 1 21 10 30 781000))"
    by (rule conjunct2)
  then have g: "get_datetime_from_log_line ''[2021-05-01 21:10:30.781000] some text''
     = Inr (Some (datetime_us 2021 5 1 21 10 30 781000))"
    unfolding s by simp
  show ?thesis by (intro conjI v s g)
qed

text \<open>
  Claim C8. For every interval width \<open>w\<close> and every timestamp \<open>t\<close> that lies on a
  bucket boundary, which is \<^verbatim>\<open>(t - epoch) % w == 0\<close> (so \<open>w\<close> is not zero, or the
  remainder would raise), the rounding of line 69 returns \<open>t\<close> itself.
\<close>

theorem rounding_idempotent:
  assumes "valid_datetime t" and "td_mod (dt_sub t datetime_min) w = Inr 0"
  shows "round_log_date t w = Inr t"
proof -
  from assms(2) have w: "w \<noteq> 0" and m: "t mod w = 0"
    by (auto simp: td_mod_def dt_sub_def datetime_min_def split: if_splits)
  from m have "w dvd t" by (simp add: mod_eq_0_iff_dvd)
  then have "w dvd - t" by simp
  then have "(- t) mod w = 0" by (simp only: mod_eq_0_iff_dvd)
  with w assms(1) show ?thesis
    by (simp add: round_log_date_pos dt_add_def datetime_min_def)
qed

theorem rounding_idempotent_witness:
  "valid_datetime (datetime_us 2021 5 1 21 0 0 0) \<and>
   td_mod (dt_sub (datetime_us 2021 5 1 21 0 0 0) datetime_min) (td_minutes 30) = Inr 0 \<and>
   round_log_date (datetime_us 2021 5 1 21 0 0 0) (td_minutes 30) = Inr (datetime_us 2021 5 1 21 0 0 0)"
proof -
  have v: "valid_datetime (datetime_us 2021 5 1 21 0 0 0)" by code_simp
  have b: "td_mod (dt_sub (datetime_us 2021 5 1 21 0 0 0) datetime_min) (td_minutes 30) = Inr 0"
    by code_simp
  from rounding_idempotent[OF v b] v b show ?thesis by simp
qed

text \<open>
  Claim C9 says that the extractor removes only the single leading \<^verbatim>\<open>[\<close>, so that
  \<^verbatim>\<open>[[2021-05-01 21:10:30.781]\<close> would be parsed with a bracket left and fail.
  \<^verbatim>\<open>lstrip("[")\<close> removes every leading \<^verbatim>\<open>[\<close>: the line yields the timestamp, while
  the text with one bracket removed would not parse.
\<close>

theorem single_bracket_counterexample:
  "get_datetime_from_log_line ''[[2021-05-01 21:10:30.781]''
     = Inr (Some (datetime_us 2021 5 1 21 10 30 781000)) \<and>
   strptime (tl (split_first ''[[2021-05-01 21:10:30.781]'' (CHR '']''))) = Inl ValueError"
  by code_simp

text \<open>
  Claim C9, amended. For every line that starts with \<^verbatim>\<open>[\<close>, the extractor parses
  exactly the text before the first \<^verbatim>\<open>]\<close> (the whole line when there is none) with
  all its leading \<^verbatim>\<open>[\<close> removed, and returns what \<^verbatim>\<open>strptime\<close> makes of it. A line
  that begins with more brackets, as \<^verbatim>\<open>[[2021-05-01 21:10:30.781]\<close>, is parsed without
  them and yields its timestamp.
\<close>

theorem extractor_parses_bracketed_text:
  assumes "startswith log_line (CHR ''['')"
  shows "get_datetime_from_log_line log_line =
           (case strptime (dropWhile (\<lambda>c. c = CHR ''['')
                             (takeWhile (\<lambda>c. c \<noteq> CHR '']'') log_line)) of
              Inl e \<Rightarrow> Inl e
            | Inr t \<Rightarrow> Inr (Some t))"
  using assms
  by (simp add: get_datetime_from_log_line_def split_first_takeWhile lstrip_dropWhile)

theorem extractor_parses_bracketed_text_witness:
  "startswith ''[[[2021-05-01 21:10:30.781] [exthost] [info]'' (CHR ''['') \<and>
   dropWhile (\<lambda>c. c = CHR ''['')
     (takeWhile (\<lambda>c. c \<noteq> CHR '']'') ''[[[2021-05-01 21:10:30.781] [exthost] [info]'')
     = ''2021-05-01 21:10:30.781'' \<and>
   strptime ''2021-05-01 21:10:30.781'' = Inr (datetime_us 2021 5 1 21 10 30 781000) \<and>
   get_datetime_from_log_line ''[[[2021-05-01 21:10:30.781] [exthost] [info]''
     = Inr (Some (datetime_us 2021 5 1 21 10 30 781000))"
proof -
  let ?l = "''[[[2021-05-01 21:10:30.781] [exthost] [info]''"
  have s: "startswith ?l (CHR ''['')" by simp
  have d: "dropWhile (\<lambda>c. c = CHR ''['') (takeWhile (\<lambda>c. c \<noteq> CHR '']'') ?l)
     = ''2021-05-01 21:10:30.781''" by simp
  have p: "strptime ''2021-05-01 21:10:30.781'' = Inr (datetime_us 2021 5 1 21 10 30 781000)"
    by code_simp
  have g: "get_datetime_from_log_line ?l = Inr (Some (datetime_us 2021 5 1 21 10 30 781000))"
    unfolding extractor_parses_bracketed_text[OF s] d p by simp
  show ?thesis by (intro conjI s d p g)
qed

text \<open>
  Claim C10. When the aggregator returns a histogram, the keys created by the
  pre-seeding are its first keys, in their order; each of them still has a value, not
  less than the 0 it was given; every value of the histogram is non-negative; and one
  step of the counting scan changes one key only, whose value it increments, or sets
  to 1 when the key is new.
\<close>

theorem preseeded_keys_remain:
  assumes "get_log_activity_interval log_file delta = Some (Inr h)"
  shows "\<exists>t d. first_log_date log_file = Some (Inr t) \<and>
           seed_buckets (combine_midnight t) delta = Inr d \<and>
           (\<exists>new. map fst h = map fst d @ new) \<and>
           (\<forall>k v0. dict_get d k = Some v0 \<longrightarrow> (\<exists>v. dict_get h k = Some v \<and> v0 \<le> v)) \<and>
           (\<forall>(k, v) \<in> set h. 0 \<le> v) \<and>
           (\<forall>d' k k'. dict_get (incr_bucket d' k) k' =
              (if k' = k then Some (case dict_get d' k of None \<Rightarrow> 1 | Some v \<Rightarrow> v + 1)
               else dict_get d' k'))"
proof -
  from aggregator_Inr[OF assms] obtain t d where
    f: "first_log_date log_file = Some (Inr t)"
    and s: "seed_buckets (combine_midnight t) delta = Inr d"
    and c: "count_lines delta log_file d = Inr h"
    by blast
  note keys = count_lines_keys[OF c]
  have kept: "\<exists>v. dict_get h k = Some v \<and> v0 \<le> v" if "dict_get d k = Some v0" for k v0
    using count_lines_get[OF c, of k] that by (simp add: Let_def)
  from seed_buckets_zero[OF s] have "\<forall>(k, v) \<in> set d. 0 \<le> v" by auto
  from count_lines_nonneg[OF c this] have nonneg: "\<forall>(k, v) \<in> set h. 0 \<le> v" .
  have step: "dict_get (incr_bucket d' k) k' =
              (if k' = k then Some (case dict_get d' k of None \<Rightarrow> 1 | Some v \<Rightarrow> v + 1)
               else dict_get d' k')" for d' k k'
    by (rule dict_get_incr)
  from f s keys kept nonneg step show ?thesis by blast
qed

theorem preseeded_keys_remain_witness:
  "get_log_activity_interval
     [''[2021-05-01 21:10:30.781] some text\<newline>'', ''no timestamp here\<newline>'',
      ''[2021-05-01 23:50:00.0] late\<newline>'', ''[2021-05-01 23:55:00.0] later'']
     (td_minutes 30)
     = Some (Inr (map (\<lambda>i. (datetime_us 2021 5 1 0 0 0 0 + i * td_minutes 30,
                              if i = 43 then 1 else 0)) [0..47]
                  @ [(datetime_us 2021 5 2 0 0 0 0, 2)])) \<and>
   first_log_date
     [''[2021-05-01 21:10:30.781] some text\<newline>'', ''no timestamp here\<newline>'',
      ''[2021-05-01 23:50:00.0] late\<newline>'', ''[2021-05-01 23:55:00.0] later'']
     = Some (Inr (datetime_us 2021 5 1 21 10 30 781000)) \<and>
   seed_buckets (combine_midnight (datetime_us 2021 5 1 21 10 30 781000)) (td_minutes 30)
     = Inr (map (\<lambda>i. (datetime_us 2021 5 1 0 0 0 0 + i * td_minutes 30, 0)) [0..47]) \<and>
   (\<exists>new. map fst (map (\<lambda>i. (datetime_us 2021 5 1 0 0 0 0 + i * td_minutes 30,
                              if i = 43 then 1 else 0)) [0..47]
                  @ [(datetime_us 2021 5 2 0 0 0 0, 2::int)])
          = map fst (map (\<lambda>i. (datetime_us 2021 5 1 0 0 0 0 + i * td_minutes 30, 0::int)) [0..47])
            @ new) \<and>
   list_all (\<lambda>(k, v). 0 \<le> v)
     (map (\<lambda>i. (datetime_us 2021 5 1 0 0 0 0 + i * td_minutes 30,
                              if i = 43 then 1 else 0)) [0..47]
                  @ [(datetime_us 2021 5 2 0 0 0 0, 2::int)])"
proof -
  let ?f = "[''[2021-05-01 21:10:30.781] some text\<newline>'', ''no timestamp here\<newline>'',
      ''[2021-05-01 23:50:00.0] late\<newline>'', ''[2021-05-01 23:55:00.0] later'']"
  let ?h = "map (\<lambda>i. (datetime_us 2021 5 1 0 0 0 0 + i * td_minutes 30,
                              if i = 43 then 1 else 0)) [0..47]
                  @ [(datetime_us 2021 5 2 0 0 0 0, 2::int)]"
  let ?d = "map (\<lambda>i. (datetime_us 2021 5 1 0 0 0 0 + i * td_minutes 30, 0::int)) [0..47]"
  have g: "get_datetime_from_log_line ''[2021-05-01 21:10:30.781] some text\<newline>''
      = Inr (Some (datetime_us 2021 5 1 21 10 30 781000))"
    by code_simp
  have f: "first_log_date ?f = Some (Inr (datetime_us 2021 5 1 21 10 30 781000))"
    by (simp only: first_log_date_Cons g sum.case option.case)
  have a: "get_log_activity_interval ?f (td_minutes 30) = Some (Inr ?h)"
    unfolding aggregator_eval[OF f] by code_simp
  have s: "seed_buckets (combine_midnight (datetime_us 2021 5 1 21 10 30 781000)) (td_minutes 30)
     = Inr ?d" by code_simp
  from preseeded_keys_remain[OF a] obtain t d new where
    f': "first_log_date ?f = Some (Inr t)"
    and s': "seed_buckets (combine_midnight t) (td_minutes 30) = Inr d"
    and keys: "map fst ?h = map fst d @ new"
    and nonneg: "\<forall>(k, v) \<in> set ?h. 0 \<le> v"
    by (elim exE conjE)
  from f f' have "t = datetime_us 2021 5 1 21 10 30 781000" by simp
  with s s' have "d = ?d" by simp
  with keys have "map fst ?h = map fst ?d @ new" by (simp only:)
  then have keys': "\<exists>new. map fst ?h = map fst ?d @ new" by (rule exI)
  from nonneg have nonneg': "list_all (\<lambda>(k, v). 0 \<le> v) ?h" by (simp only: list_all_iff)
  show ?thesis by (intro conjI a f s keys' nonneg')
qed

end
